theory Spec2Isabelle
  imports Main "HOL-Library.Word"
begin

section \<open>Errors\<close>

text \<open>
  The Go code tells errors apart in one place only: the type assertion
  \<^verbatim>\<open>err.(awserr.Error)\<close> in \<^verbatim>\<open>Upload\<close>. The error values of the model carry the
  class of the Go value that is returned: an error of the AWS SDK, a path error of package
  \<^verbatim>\<open>os\<close> (\<^verbatim>\<open>os.Open\<close>, \<^verbatim>\<open>os.Stat\<close>, \<^verbatim>\<open>os.Lstat\<close> and the directory listing return
  nothing else), an error of the glob library, or any other error.
\<close>

datatype error =
    AwsError string
  | PathError string
  | PatternError string
  | PlainError string

fun isAwsError :: "error \<Rightarrow> bool" where
  "isAwsError (AwsError m) = True"
| "isAwsError e = False"

section \<open>Path filter\<close>

text \<open>
  \<^verbatim>\<open>zglob.Match(pat, path)\<close> belongs to an external library. It is a parameter of the
  model: a function from the pattern and the path to either an error (the pattern does not
  compile) or the verdict.
\<close>

type_synonym matcher = "string \<Rightarrow> string \<Rightarrow> error + bool"

text \<open>
  \<^verbatim>\<open>isUploadableFile\<close>: the loop over \<^verbatim>\<open>s.Config.S3.Ignore\<close>, with its two early
  returns. The Go result \<^verbatim>\<open>(false, err)\<close> is \<open>Inl err\<close>, \<^verbatim>\<open>(b, nil)\<close> is \<open>Inr b\<close>.
\<close>

fun isUploadableFile :: "matcher \<Rightarrow> string list \<Rightarrow> string \<Rightarrow> error + bool" where
  "isUploadableFile zmatch [] path = Inr True"
| "isUploadableFile zmatch (pat # pats) path =
     (case zmatch pat path of
        Inl err \<Rightarrow> Inl err
      | Inr match \<Rightarrow> if match then Inr False else isUploadableFile zmatch pats path)"

text \<open>
  A matcher for the concrete inputs, which agrees with the library on the patterns used
  below. A pattern without \<open>*\<close> or \<open>{\<close> is compared with the path literally and never
  fails, so \<open>[\<close> alone is an ordinary pattern. A pattern with a wildcard is turned into a
  regular expression: \<open>*[z-a]\<close> does not compile, its character class has its bounds in
  the wrong order. \<open>*\<close> matches a path of more than one character without a slash, and
  \<open>sub/*\<close> matches the paths directly below \<open>sub\<close>. No other pattern with a wildcard is
  used; the matcher compares it literally.
\<close>

definition sampleMatch :: matcher where
  "sampleMatch pat path =
     (if pat = ''*[z-a]'' then Inl (PatternError ''invalid character class range: z-a'')
      else if pat = ''*'' then Inr (CHR ''/'' \<notin> set path \<and> 1 < length path)
      else if pat = ''sub/*'' then Inr (take 4 path = ''sub/'' \<and> CHR ''/'' \<notin> set (drop 4 path))
      else Inr (pat = path))"

text \<open>
  The first pattern, in the order given, on which the matcher does not answer "no match":
  the specification's reading of the filter.
\<close>

fun firstHit :: "matcher \<Rightarrow> string list \<Rightarrow> string \<Rightarrow> (error + bool) option" where
  "firstHit zmatch [] path = None"
| "firstHit zmatch (pat # pats) path =
     (if zmatch pat path = Inr False then firstHit zmatch pats path
      else Some (zmatch pat path))"

section \<open>Paths\<close>

text \<open>
  The code builds its paths with \<^verbatim>\<open>filepath.Join\<close> and cuts them with
  \<^verbatim>\<open>strings.TrimPrefix\<close>; both belong to Go's standard library. They are modelled on
  strings, for a Unix separator. \<open>splitOn\<close> is \<^verbatim>\<open>strings.Split\<close> for a separator of one
  character and \<open>joinWith\<close> is \<^verbatim>\<open>strings.Join\<close>.
\<close>

fun splitOn :: "char \<Rightarrow> string \<Rightarrow> string list" where
  "splitOn c [] = [[]]"
| "splitOn c (x # xs) =
     (if x = c then [] # splitOn c xs
      else (case splitOn c xs of [] \<Rightarrow> [[x]] | w # ws \<Rightarrow> (x # w) # ws))"

fun joinWith :: "string \<Rightarrow> string list \<Rightarrow> string" where
  "joinWith sep [] = []"
| "joinWith sep [e] = e"
| "joinWith sep (e # f # es) = e @ sep @ joinWith sep (f # es)"

text \<open>
  \<^verbatim>\<open>filepath.Clean\<close>, by its documented rules, on the elements of the path: empty
  elements (doubled separators) and \<open>.\<close> are dropped; \<open>..\<close> removes the element before it,
  is dropped at the root of a rooted path, and is kept at the start of a relative one. The
  result of a rooted path starts with one separator; an empty result is \<open>.\<close>.
\<close>

fun cleanElems :: "bool \<Rightarrow> string list \<Rightarrow> string list \<Rightarrow> string list" where
  "cleanElems rooted out [] = rev out"
| "cleanElems rooted out (e # es) =
     (if e = [] \<or> e = ''.'' then cleanElems rooted out es
      else if e = ''..'' then
        (case out of
           [] \<Rightarrow> if rooted then cleanElems rooted [] es else cleanElems rooted [''..''] es
         | d # ds \<Rightarrow> if d = ''..'' then cleanElems rooted (''..'' # out) es
                     else cleanElems rooted ds es)
      else cleanElems rooted (e # out) es)"

definition Clean :: "string \<Rightarrow> string" where
  "Clean p =
     (let rooted = (take 1 p = ''/'');
          out = joinWith ''/'' (cleanElems rooted [] (splitOn CHR ''/'' p))
      in if rooted then ''/'' @ out else if out = [] then ''.'' else out)"

text \<open>
  \<^verbatim>\<open>filepath.Join\<close>: leading empty elements are skipped, the rest is joined with the
  separator and cleaned.
\<close>

fun Join :: "string list \<Rightarrow> string" where
  "Join [] = []"
| "Join (e # es) = (if e = [] then Join es else Clean (joinWith ''/'' (e # es)))"

definition TrimPrefix :: "string \<Rightarrow> string \<Rightarrow> string" where
  "TrimPrefix s pre = (if take (length pre) s = pre then drop (length pre) s else s)"

text \<open>
  The destination key of \<^verbatim>\<open>uploadFile\<close>:
  \<^verbatim>\<open>destPath := filepath.Join("/", s.Config.S3.Prefix, path)\<close>.
\<close>

definition destPath :: "string \<Rightarrow> string \<Rightarrow> string" where
  "destPath pre path = Join [''/'', pre, path]"

text \<open>
  A plain name is a file name as a directory lists it: not empty, not \<open>.\<close> or \<open>..\<close>, without
  a separator. A plain relative path is made of plain names with one separator between
  them, as in \<open>sub/c.txt\<close>; a clean absolute path is a separator followed by a plain
  relative path, which is what \<^verbatim>\<open>filepath.Abs\<close> returns for every directory but the root
  of the file system.
\<close>

definition plainElem :: "string \<Rightarrow> bool" where
  "plainElem e = (e \<noteq> [] \<and> e \<noteq> ''.'' \<and> e \<noteq> ''..'' \<and> CHR ''/'' \<notin> set e)"

definition plainRel :: "string \<Rightarrow> bool" where
  "plainRel p = list_all plainElem (splitOn CHR ''/'' p)"

definition cleanAbs :: "string \<Rightarrow> bool" where
  "cleanAbs p = (take 1 p = ''/'' \<and> plainRel (drop 1 p))"

definition slashes :: "string list \<Rightarrow> string" where
  "slashes cs = concat (map ((#) CHR ''/'') cs)"

definition relName :: "string list \<Rightarrow> string" where
  "relName cs = joinWith ''/'' cs"

section \<open>File system and directory walk\<close>

text \<open>
  The file system below the source directory, as \<^verbatim>\<open>filepath.Walk\<close> and \<^verbatim>\<open>os.Stat\<close>
  see it. A directory lists its entries in the order \<^verbatim>\<open>Walk\<close> visits them. \<open>OtherFile\<close>
  is an entry that is neither a directory nor a regular file (a named pipe, a socket, a
  device). \<open>LockedDir\<close> is a directory that cannot be listed (permission denied), and
  \<open>Missing\<close> is a name that no longer exists when it is examined (removed during the
  walk; for the root, a source directory that does not exist). Symbolic links are not
  modelled, so \<^verbatim>\<open>os.Stat\<close> and \<^verbatim>\<open>os.Lstat\<close> agree.
\<close>

datatype fsnode =
    RegularFile
  | OtherFile
  | Directory "(string \<times> fsnode) list"
  | LockedDir
  | Missing

fun isDir :: "fsnode \<Rightarrow> bool" where
  "isDir (Directory es) = True"
| "isDir LockedDir = True"
| "isDir n = False"

text \<open>The result of \<^verbatim>\<open>os.Lstat\<close> is an error or the file info, of which only
  \<^verbatim>\<open>IsDir()\<close> is read.\<close>

fun Lstat :: "fsnode \<Rightarrow> error + bool" where
  "Lstat Missing = Inl (PathError ''no such file or directory'')"
| "Lstat n = Inr (isDir n)"

definition Stat :: "fsnode \<Rightarrow> error + bool" where
  "Stat n = Lstat n"

fun readDirNames :: "fsnode \<Rightarrow> error + (string \<times> fsnode) list" where
  "readDirNames (Directory es) = Inr es"
| "readDirNames LockedDir = Inl (PathError ''permission denied'')"
| "readDirNames n = Inl (PathError ''not a directory'')"

text \<open>
  The callback of \<^verbatim>\<open>filepath.Walk\<close> takes the path, the file info and the error that
  \<^verbatim>\<open>Walk\<close> met at this path, and returns an error or nil. Here it also takes the entry at
  the path (for its own \<^verbatim>\<open>os.Stat(path)\<close>) and the variables it closes over.
\<close>

type_synonym 'st walkFunc =
  "string \<Rightarrow> fsnode \<Rightarrow> error option \<Rightarrow> 'st \<Rightarrow> error option \<times> 'st"

text \<open>
  \<^verbatim>\<open>filepath.walk\<close> of the standard library, entered for a path whose \<^verbatim>\<open>Lstat\<close>
  succeeded. A non-directory is handed to the callback. A directory is listed first and
  then handed to the callback together with the error of the listing; when the listing
  failed or the callback returned an error, that is the end of this directory and the
  callback's result is returned. Otherwise the names are visited in turn: a name whose
  \<^verbatim>\<open>Lstat\<close> fails is handed to the callback with that error. The first error a
  callback returns ends the walk (the callback of \<^verbatim>\<open>sourceFiles\<close> never returns
  \<^verbatim>\<open>SkipDir\<close>).
\<close>

fun walk :: "'st walkFunc \<Rightarrow> string \<Rightarrow> fsnode \<Rightarrow> 'st \<Rightarrow> error option \<times> 'st"
  and walkNames ::
    "'st walkFunc \<Rightarrow> string \<Rightarrow> (string \<times> fsnode) list \<Rightarrow> 'st \<Rightarrow> error option \<times> 'st"
where
  "walk walkFn path (Directory es) st =
     (case walkFn path (Directory es) None st of
        (Some err1, st1) \<Rightarrow> (Some err1, st1)
      | (None, st1) \<Rightarrow> walkNames walkFn path es st1)"
| "walk walkFn path LockedDir st =
     walkFn path LockedDir (Some (PathError ''permission denied'')) st"
| "walk walkFn path RegularFile st = walkFn path RegularFile None st"
| "walk walkFn path OtherFile st = walkFn path OtherFile None st"
| "walk walkFn path Missing st = walkFn path Missing None st"
| "walkNames walkFn path [] st = (None, st)"
| "walkNames walkFn path ((name, child) # rest) st =
     (case Lstat child of
        Inl err \<Rightarrow>
          (case walkFn (Join [path, name]) child (Some err) st of
             (Some err1, st1) \<Rightarrow> (Some err1, st1)
           | (None, st1) \<Rightarrow> walkNames walkFn path rest st1)
      | Inr d \<Rightarrow>
          (case walk walkFn (Join [path, name]) child st of
             (Some err1, st1) \<Rightarrow> (Some err1, st1)
           | (None, st1) \<Rightarrow> walkNames walkFn path rest st1))"

definition Walk :: "'st walkFunc \<Rightarrow> string \<Rightarrow> fsnode \<Rightarrow> 'st \<Rightarrow> error option \<times> 'st" where
  "Walk walkFn root node st =
     (case Lstat node of
        Inl err \<Rightarrow> walkFn root node (Some err) st
      | Inr d \<Rightarrow> walk walkFn root node st)"

section \<open>File enumerator\<close>

text \<open>
  The function literal that \<^verbatim>\<open>sourceFiles\<close> passes to \<^verbatim>\<open>filepath.Walk\<close>; the state is
  the variable \<^verbatim>\<open>files\<close>. Its parameter \<^verbatim>\<open>err\<close> is never read: the first statement that
  mentions it, \<^verbatim>\<open>ok, err := s.isUploadableFile(cpath)\<close>, assigns to it.
\<close>

definition visit :: "matcher \<Rightarrow> string list \<Rightarrow> string \<Rightarrow> string list walkFunc" where
  "visit zmatch ignore source path node err files =
     (let cpath = TrimPrefix path source in
      if cpath = [] then (None, files)
      else
        let cpath = drop 1 cpath in
        case isUploadableFile zmatch ignore cpath of
          Inl err \<Rightarrow> (Some err, files)
        | Inr ok \<Rightarrow>
            if \<not> ok then (None, files)
            else (case Stat node of
                    Inl err \<Rightarrow> (Some err, files)
                  | Inr d \<Rightarrow> if d then (None, files) else (None, files @ [cpath])))"

definition sourceFiles ::
  "matcher \<Rightarrow> string list \<Rightarrow> string \<Rightarrow> fsnode \<Rightarrow> error + string list" where
  "sourceFiles zmatch ignore source root =
     (case Walk (visit zmatch ignore source) source root [] of
        (Some err, files) \<Rightarrow> Inl err
      | (None, files) \<Rightarrow> Inr files)"

text \<open>
  What the specification speaks of. \<open>resolve\<close> follows a list of names down from a node.
  A tree is plain when every entry is a regular file, another non-directory or a directory
  that can be listed, and the names of a directory are plain and differ from each other.
  \<open>regularTree\<close> holds when, moreover, no entry is an \<open>OtherFile\<close>. \<open>leaves\<close> lists the
  non-directories below a node, each by its names from the node.
\<close>

fun resolve :: "fsnode \<Rightarrow> string list \<Rightarrow> fsnode option" where
  "resolve n [] = Some n"
| "resolve (Directory es) (c # cs) =
     (case map_of es c of None \<Rightarrow> None | Some child \<Rightarrow> resolve child cs)"
| "resolve n (c # cs) = None"

fun plainTree :: "fsnode \<Rightarrow> bool" where
  "plainTree (Directory es) =
     (distinct (map fst es) \<and> (\<forall>e \<in> set es. plainElem (fst e) \<and> plainTree (snd e)))"
| "plainTree RegularFile = True"
| "plainTree OtherFile = True"
| "plainTree LockedDir = False"
| "plainTree Missing = False"

fun regularTree :: "fsnode \<Rightarrow> bool" where
  "regularTree (Directory es) = (\<forall>e \<in> set es. regularTree (snd e))"
| "regularTree OtherFile = False"
| "regularTree n = True"

fun leaves :: "fsnode \<Rightarrow> string list list"
  and leavesL :: "(string \<times> fsnode) list \<Rightarrow> string list list" where
  "leaves (Directory es) = leavesL es"
| "leaves RegularFile = [[]]"
| "leaves OtherFile = [[]]"
| "leaves LockedDir = []"
| "leaves Missing = []"
| "leavesL [] = []"
| "leavesL ((name, child) # rest) = map ((#) name) (leaves child) @ leavesL rest"

text \<open>The trees of the concrete inputs below.\<close>

definition siteTree :: fsnode where
  "siteTree = Directory [(''a.txt'', RegularFile), (''b.png'', RegularFile),
                         (''sub'', Directory [(''c.txt'', RegularFile)])]"

definition lockedTree :: fsnode where
  "lockedTree = Directory [(''a.txt'', RegularFile), (''locked'', LockedDir),
                           (''z.txt'', RegularFile)]"

definition pipeTree :: fsnode where
  "pipeTree = Directory [(''a.txt'', RegularFile), (''pipe'', OtherFile)]"

section \<open>Configuration and collaborators\<close>

text \<open>
  The type \<^verbatim>\<open>Config\<close> is declared in another file of the repository; the record has the
  fields of \<^verbatim>\<open>Config.S3\<close> that the modelled functions read. \<^verbatim>\<open>S3Upload\<close> is the struct of
  \<^verbatim>\<open>s3.go\<close> without its connection, which belongs to the collaborators below.
\<close>

record S3Config =
  Bucket :: string
  Prefix :: string
  ACL :: string
  CacheControl :: string
  Ignore :: "string list"

record S3Upload =
  Config :: S3Config
  SourcePath :: string

text \<open>The fields of \<^verbatim>\<open>s3.PutObjectInput\<close> that \<^verbatim>\<open>uploadFile\<close> sets; the body is the
  opened file, named by its path.\<close>

record PutObjectInput =
  objBucket :: string
  objKey :: string
  objACL :: string
  objContentType :: string
  objCacheControl :: "string option"
  objBody :: string

text \<open>
  The collaborators of the code: the glob library, the file system below the source
  directory, \<^verbatim>\<open>os.Open\<close>, the MIME lookup \<^verbatim>\<open>mime.TypeByExtension(filepath.Ext(path))\<close> and
  the object store's \<^verbatim>\<open>req.Send()\<close>. Opening and sending may answer differently each
  time they are tried: their second argument is the number of earlier attempts on the same
  task. \<^verbatim>\<open>os.Open\<close> fails with a path error only, so \<open>openErr\<close> gives its text.
\<close>

record env =
  glob :: matcher
  sourceTree :: fsnode
  openErr :: "string \<Rightarrow> nat \<Rightarrow> string option"
  mimeOf :: "string \<Rightarrow> string"
  sendErr :: "PutObjectInput \<Rightarrow> nat \<Rightarrow> error option"

text \<open>What the code does to the outside, in the order it does it.\<close>

datatype event =
    Opened string
  | Printed string
  | PutObject PutObjectInput
  | Slept nat

section \<open>Upload worker\<close>

text \<open>The request that \<^verbatim>\<open>uploadFile\<close> builds: \<^verbatim>\<open>mimeType\<close>, \<^verbatim>\<open>destPath\<close>, \<^verbatim>\<open>acl\<close>,
  \<^verbatim>\<open>obj\<close> and the optional cache control.\<close>

definition newObject :: "S3Upload \<Rightarrow> env \<Rightarrow> string \<Rightarrow> PutObjectInput" where
  "newObject s e path =
     (let mimeType = mimeOf e path;
          mimeType = (if mimeType = [] then ''application/octet-stream'' else mimeType);
          acl = ACL (Config s);
          acl = (if acl = [] then ''private'' else acl);
          obj = \<lparr> objBucket = Bucket (Config s),
                  objKey = destPath (Prefix (Config s)) path,
                  objACL = acl,
                  objContentType = mimeType,
                  objCacheControl = None,
                  objBody = Join [SourcePath s, path] \<rparr>
      in if CacheControl (Config s) \<noteq> [] then obj \<lparr> objCacheControl := Some (CacheControl (Config s)) \<rparr>
         else obj)"

definition progressLine :: "bool \<Rightarrow> string \<Rightarrow> string" where
  "progressLine dryrun dest =
     (if dryrun then ''[DRYRUN] uploading '' @ dest @ '' ...'' @ [CHR 0x0A]
      else ''uploading '' @ dest @ '' ...'' @ [CHR 0x0A])"

text \<open>
  \<^verbatim>\<open>uploadFile(path, dryrun)\<close>, tried for the \<open>k\<close>-th time on its task (counted from 0).
  The result is the pair \<^verbatim>\<open>(num, err)\<close> with the events of the call.
\<close>

definition uploadFile ::
  "S3Upload \<Rightarrow> env \<Rightarrow> nat \<Rightarrow> string \<Rightarrow> bool \<Rightarrow> (int \<times> error option) \<times> event list" where
  "uploadFile s e k path dryrun =
     (let num = 0; file = Join [SourcePath s, path] in
      case openErr e file k of
        Some msg \<Rightarrow> ((num, Some (PathError msg)), [])
      | None \<Rightarrow>
          let obj = newObject s e path;
              before = [Opened file, Printed (progressLine dryrun (objKey obj))]
          in if \<not> dryrun then
               (case sendErr e obj k of
                  Some err \<Rightarrow> ((num, Some err), before @ [PutObject obj])
                | None \<Rightarrow> ((num + 1, None), before @ [PutObject obj]))
             else ((num, None), before))"

section \<open>Upload orchestrator\<close>

text \<open>
  The goroutines of \<^verbatim>\<open>Upload\<close> share the channel \<^verbatim>\<open>fch\<close> (filled and closed before they
  start), the counter \<^verbatim>\<open>num\<close> and the process itself, which a panic in any of them
  ends. A worker is at one of four places: at the \<^verbatim>\<open>range\<close> over the channel, at the
  label \<^verbatim>\<open>RETRY\<close> with its path and \<^verbatim>\<open>numRetries\<close>, before \<^verbatim>\<open>atomic.AddUint64\<close> with the
  \<^verbatim>\<open>n\<close> it got, or past the loop.
\<close>

datatype worker =
    AtRange
  | AtRetry string int
  | AtAdd int
  | Finished

datatype panicValue =
    PanicError error
  | PanicString string

record pool =
  fch :: "string list"
  num :: "64 word"
  workers :: "worker list"
  trace :: "event list"
  panic :: "panicValue option"

fun errorText :: "error \<Rightarrow> string" where
  "errorText (AwsError m) = m"
| "errorText (PathError m) = m"
| "errorText (PatternError m) = m"
| "errorText (PlainError m) = m"

definition retryNotice :: "string \<Rightarrow> string" where
  "retryNotice path =
     ''failed to upload '' @ path @ '', retrying in 1 second ...'' @ [CHR 0x0A]"

text \<open>
  One step of worker \<open>i\<close>: a receive from the channel, one call of \<^verbatim>\<open>uploadFile\<close> with
  the branches on its error, or the atomic addition. Nothing moves after a panic, and a
  worker past its loop does not move. The call at \<^verbatim>\<open>RETRY\<close> with \<^verbatim>\<open>numRetries = r\<close> is
  attempt number \<open>30 - r\<close> on its task, counted from 0.
\<close>

definition step :: "S3Upload \<Rightarrow> env \<Rightarrow> bool \<Rightarrow> pool \<Rightarrow> nat \<Rightarrow> pool" where
  "step s e dryrun c i =
     (if panic c \<noteq> None \<or> length (workers c) \<le> i then c
      else case workers c ! i of
        AtRange \<Rightarrow>
          (case fch c of
             [] \<Rightarrow> c \<lparr> workers := (workers c)[i := Finished] \<rparr>
           | path # rest \<Rightarrow> c \<lparr> fch := rest, workers := (workers c)[i := AtRetry path 30] \<rparr>)
      | AtRetry path numRetries \<Rightarrow>
          (case uploadFile s e (nat (30 - numRetries)) path dryrun of
             ((n, None), evs) \<Rightarrow>
               c \<lparr> workers := (workers c)[i := AtAdd n], trace := trace c @ evs \<rparr>
           | ((n, Some err), evs) \<Rightarrow>
               if isAwsError err then
                 (if numRetries - 1 > 0 then
                    c \<lparr> workers := (workers c)[i := AtRetry path (numRetries - 1)],
                        trace := trace c @ evs @ [Printed (retryNotice path), Slept 1] \<rparr>
                  else c \<lparr> trace := trace c @ evs, panic := Some (PanicError err) \<rparr>)
               else c \<lparr> trace := trace c @ evs,
                         panic := Some (PanicString (''unknown error! '' @ errorText err)) \<rparr>)
      | AtAdd n \<Rightarrow>
          c \<lparr> num := num c + word_of_int n, workers := (workers c)[i := AtRange] \<rparr>
      | Finished \<Rightarrow> c)"

text \<open>A schedule names the worker that moves next; \<open>run\<close> follows it.\<close>

fun run :: "S3Upload \<Rightarrow> env \<Rightarrow> bool \<Rightarrow> pool \<Rightarrow> nat list \<Rightarrow> pool" where
  "run s e dryrun c [] = c"
| "run s e dryrun c (i # sched) = run s e dryrun (step s e dryrun c i) sched"

text \<open>A schedule is live when each of its steps is taken by a worker that can move.\<close>

fun live :: "S3Upload \<Rightarrow> env \<Rightarrow> bool \<Rightarrow> pool \<Rightarrow> nat list \<Rightarrow> bool" where
  "live s e dryrun c [] = True"
| "live s e dryrun c (i # sched) =
     (panic c = None \<and> i < length (workers c) \<and> workers c ! i \<noteq> Finished
      \<and> live s e dryrun (step s e dryrun c i) sched)"

text \<open>
  The pool that \<^verbatim>\<open>Upload\<close> starts: the channel holds the files, and the loop
  \<^verbatim>\<open>for i := 0; i < parallel; i++\<close> starts \<open>nat parallel\<close> goroutines, none when
  \<^verbatim>\<open>parallel\<close> is zero or negative.
\<close>

definition startPool :: "string list \<Rightarrow> int \<Rightarrow> pool" where
  "startPool files parallel =
     \<lparr> fch = files, num = 0, workers = replicate (nat parallel) AtRange,
       trace = [], panic = None \<rparr>"

text \<open>
  \<^verbatim>\<open>Upload\<close> under a schedule. It returns \<^verbatim>\<open>(0, err)\<close> when the enumeration fails. It
  returns \<^verbatim>\<open>(num, nil)\<close> once \<^verbatim>\<open>wg.Wait()\<close> is over, which is when every worker is past
  its loop; a panic ends the process without a result; and a schedule that stops earlier
  leaves \<^verbatim>\<open>Upload\<close> waiting.
\<close>

datatype outcome =
    Returns "64 word" "error option"
  | Panics panicValue
  | Waiting

definition allFinished :: "pool \<Rightarrow> bool" where
  "allFinished c = list_all (\<lambda>w. w = Finished) (workers c)"

definition finish :: "pool \<Rightarrow> outcome" where
  "finish c =
     (case panic c of
        Some v \<Rightarrow> Panics v
      | None \<Rightarrow> if allFinished c then Returns (num c) None else Waiting)"

definition Upload :: "S3Upload \<Rightarrow> env \<Rightarrow> int \<Rightarrow> bool \<Rightarrow> nat list \<Rightarrow> outcome" where
  "Upload s e parallel dryrun sched =
     (case sourceFiles (glob e) (Ignore (Config s)) (SourcePath s) (sourceTree e) of
        Inl err \<Rightarrow> Returns 0 (Some err)
      | Inr files \<Rightarrow> finish (run s e dryrun (startPool files parallel) sched))"

text \<open>The events of a whole run of \<^verbatim>\<open>Upload\<close> under a schedule.\<close>

definition UploadTrace :: "S3Upload \<Rightarrow> env \<Rightarrow> int \<Rightarrow> bool \<Rightarrow> nat list \<Rightarrow> event list" where
  "UploadTrace s e parallel dryrun sched =
     (case sourceFiles (glob e) (Ignore (Config s)) (SourcePath s) (sourceTree e) of
        Inl err \<Rightarrow> []
      | Inr files \<Rightarrow> trace (run s e dryrun (startPool files parallel) sched))"

fun isPut :: "event \<Rightarrow> bool" where
  "isPut (PutObject obj) = True"
| "isPut ev = False"

section \<open>Concrete inputs\<close>

text \<open>
  The scenario of the specification: the source tree holds \<open>a.txt\<close>, \<open>b.png\<close> and
  \<open>sub/c.txt\<close>, the ignore pattern is \<open>sub/*\<close> and the prefix is \<open>site\<close>. \<open>bareUpload\<close> is the
  same with the empty prefix and no ignore pattern. In \<open>calmEnv\<close> every file opens and
  every request succeeds; in \<open>stormEnv\<close> every request fails with an error of the SDK; in
  \<open>flakyEnv\<close> the first two requests for a task fail so and the third succeeds; in
  \<open>sealedEnv\<close> no file can be opened.
\<close>

definition siteUpload :: S3Upload where
  "siteUpload = \<lparr> Config = \<lparr> Bucket = ''bucket'', Prefix = ''site'', ACL = [],
                               CacheControl = [], Ignore = [''sub/*''] \<rparr>,
                  SourcePath = ''/home/u/site'' \<rparr>"

definition bareUpload :: S3Upload where
  "bareUpload = \<lparr> Config = \<lparr> Bucket = ''bucket'', Prefix = [], ACL = [],
                               CacheControl = [], Ignore = [] \<rparr>,
                  SourcePath = ''/home/u/site'' \<rparr>"

definition calmEnv :: env where
  "calmEnv = \<lparr> glob = sampleMatch, sourceTree = siteTree, openErr = (\<lambda>file k. None),
               mimeOf = (\<lambda>path. []), sendErr = (\<lambda>obj k. None) \<rparr>"

definition stormEnv :: env where
  "stormEnv = calmEnv \<lparr> sendErr := (\<lambda>obj k. Some (AwsError ''RequestTimeout'')) \<rparr>"

definition flakyEnv :: env where
  "flakyEnv = calmEnv \<lparr> sendErr := (\<lambda>obj k. if k < 2 then Some (AwsError ''SlowDown'') else None) \<rparr>"

definition sealedEnv :: env where
  "sealedEnv = calmEnv \<lparr> openErr := (\<lambda>file k. Some ''permission denied'') \<rparr>"

text \<open>A pool of one worker that has just received \<open>a.txt\<close> from the channel.\<close>

definition readyPool :: pool where
  "readyPool = \<lparr> fch = [''b.png''], num = 0, workers = [AtRetry ''a.txt'' 30], trace = [],
                 panic = None \<rparr>"

section \<open>Events of one attempt\<close>

text \<open>
  The events of one live call of \<^verbatim>\<open>uploadFile\<close> that reaches the request, and the events
  of the backoff between two attempts: the retry notice and the sleep of one second.
\<close>

definition attemptEvents :: "S3Upload \<Rightarrow> env \<Rightarrow> string \<Rightarrow> event list" where
  "attemptEvents s e path =
     [Opened (Join [SourcePath s, path]),
      Printed (progressLine False (objKey (newObject s e path))),
      PutObject (newObject s e path)]"

definition backoffEvents :: "string \<Rightarrow> event list" where
  "backoffEvents path = [Printed (retryNotice path), Slept 1]"

fun isSleep :: "event \<Rightarrow> bool" where
  "isSleep (Slept n) = True"
| "isSleep ev = False"

definition puts :: "event list \<Rightarrow> nat" where
  "puts evs = length (filter isPut evs)"

definition sleeps :: "event list \<Rightarrow> nat" where
  "sleeps evs = length (filter isSleep evs)"

section \<open>Invariants of the pool\<close>

text \<open>
  \<open>firstTryOk\<close>: every file of the list opens at the first attempt and, in a live run, its
  first request succeeds. \<open>gain\<close> is what one such upload adds to the counter: 1 in a live
  run and 0 in a dry run.
\<close>

definition firstTryOk :: "S3Upload \<Rightarrow> env \<Rightarrow> bool \<Rightarrow> string list \<Rightarrow> bool" where
  "firstTryOk s e dryrun files =
     (\<forall>path \<in> set files. openErr e (Join [SourcePath s, path]) 0 = None
        \<and> (dryrun \<or> sendErr e (newObject s e path) 0 = None))"

definition gain :: "bool \<Rightarrow> nat" where
  "gain dryrun = (if dryrun then 0 else 1)"

text \<open>
  A worker holds a task that is not yet counted while it is at \<^verbatim>\<open>RETRY\<close> or before the
  addition. \<open>wcost\<close> is the number of steps a worker still takes for its own task when
  every first attempt succeeds, plus its last look at the channel; \<open>cost\<close> adds three steps
  for each file still in the channel.
\<close>

fun pending :: "worker \<Rightarrow> nat" where
  "pending (AtRetry path r) = 1"
| "pending (AtAdd n) = 1"
| "pending w = 0"

fun wcost :: "worker \<Rightarrow> nat" where
  "wcost AtRange = 1"
| "wcost (AtRetry path r) = 3"
| "wcost (AtAdd n) = 2"
| "wcost Finished = 0"

definition cost :: "pool \<Rightarrow> nat" where
  "cost c = 3 * length (fch c) + sum_list (map wcost (workers c))"

fun okWorker :: "string list \<Rightarrow> bool \<Rightarrow> worker \<Rightarrow> bool" where
  "okWorker files dryrun (AtRetry path r) = (path \<in> set files \<and> r = 30)"
| "okWorker files dryrun (AtAdd n) = (n = int (gain dryrun))"
| "okWorker files dryrun w = True"

text \<open>
  The invariant of a run in which every first attempt succeeds: no panic; every task in
  the channel or in a worker's hands is one of the files; the counter and the tasks not yet
  counted add up to the number of files (times the gain); and a worker has left its loop
  only after the channel was empty.
\<close>

definition steady :: "string list \<Rightarrow> bool \<Rightarrow> pool \<Rightarrow> bool" where
  "steady files dryrun c =
     (panic c = None \<and> set (fch c) \<subseteq> set files
      \<and> list_all (okWorker files dryrun) (workers c)
      \<and> num c + word_of_nat (gain dryrun * (length (fch c) + sum_list (map pending (workers c))))
          = word_of_nat (gain dryrun * length files)
      \<and> (Finished \<in> set (workers c) \<longrightarrow> fch c = []))"

text \<open>The invariant of every dry run: the counter is 0, no request was sent, and no
  worker is about to add anything but 0.\<close>

fun addsNothing :: "worker \<Rightarrow> bool" where
  "addsNothing (AtAdd n) = (n = 0)"
| "addsNothing w = True"

definition dryClean :: "pool \<Rightarrow> bool" where
  "dryClean c = (num c = 0 \<and> puts (trace c) = 0 \<and> list_all addsNothing (workers c))"

section \<open>Path filter: properties\<close>

lemma isUploadableFile_wellformed:
  "(\<And>pat. pat \<in> set pats \<Longrightarrow> \<exists>b. zmatch pat path = Inr b) \<Longrightarrow>
   isUploadableFile zmatch pats path = Inr (\<not> (\<exists>pat \<in> set pats. zmatch pat path = Inr True))"
proof (induction pats)
  case Nil
  show ?case by simp
next
  case (Cons p ps)
  from Cons.prems obtain b where b: "zmatch p path = Inr b" by auto
  have ih: "isUploadableFile zmatch ps path =
      Inr (\<not> (\<exists>pat \<in> set ps. zmatch pat path = Inr True))"
    using Cons.IH Cons.prems by simp
  show ?case using b ih by (cases b) auto
qed

text \<open>
  C2 (filter correctness). For every path and every list of patterns that all compile,
  \<open>isUploadableFile\<close> returns without error, and its answer is \<open>false\<close> exactly when some
  pattern of the list matches the path; so it is \<open>true\<close> when none does.
\<close>

theorem C2_filter_correctness:
  assumes "\<forall>pat \<in> set pats. \<exists>b. zmatch pat path = Inr b"
  shows "(isUploadableFile zmatch pats path = Inr False
            \<longleftrightarrow> (\<exists>pat \<in> set pats. zmatch pat path = Inr True))
       \<and> ((\<forall>pat \<in> set pats. zmatch pat path \<noteq> Inr True)
            \<longrightarrow> isUploadableFile zmatch pats path = Inr True)"
proof -
  have "isUploadableFile zmatch pats path =
      Inr (\<not> (\<exists>pat \<in> set pats. zmatch pat path = Inr True))"
    using assms by (intro isUploadableFile_wellformed) blast
  then show ?thesis by auto
qed

lemma sampleMatch_sub_c: "sampleMatch ''sub/*'' ''sub/c.txt'' = Inr True"
  by (simp add: sampleMatch_def)

lemma sampleMatch_sub_a: "sampleMatch ''sub/*'' ''a.txt'' = Inr False"
  by (simp add: sampleMatch_def)

lemma sampleMatch_star_a: "sampleMatch ''*'' ''a.txt'' = Inr True"
  by (simp add: sampleMatch_def)

lemma sampleMatch_bad_range:
  "sampleMatch ''*[z-a]'' p = Inl (PatternError ''invalid character class range: z-a'')"
  by (simp add: sampleMatch_def)

lemma sampleMatch_literal: "sampleMatch ''['' ''a.txt'' = Inr False"
  by (simp add: sampleMatch_def)

theorem C2_filter_correctness_witness:
  "sampleMatch ''sub/*'' ''sub/c.txt'' = Inr True
   \<and> isUploadableFile sampleMatch [''sub/*''] ''sub/c.txt'' = Inr False
   \<and> sampleMatch ''sub/*'' ''a.txt'' = Inr False
   \<and> isUploadableFile sampleMatch [''sub/*''] ''a.txt'' = Inr True"
proof -
  have h1: "\<forall>pat \<in> set [''sub/*'']. \<exists>b. sampleMatch pat ''sub/c.txt'' = Inr b"
    using sampleMatch_sub_c by auto
  have h2: "\<forall>pat \<in> set [''sub/*'']. \<exists>b. sampleMatch pat ''a.txt'' = Inr b"
    using sampleMatch_sub_a by auto
  have r1: "isUploadableFile sampleMatch [''sub/*''] ''sub/c.txt'' = Inr False"
    using h1 C2_filter_correctness [where zmatch = sampleMatch and pats = "[''sub/*'']"
        and path = "''sub/c.txt''"]
    by (simp add: sampleMatch_sub_c)
  have r2: "isUploadableFile sampleMatch [''sub/*''] ''a.txt'' = Inr True"
    using h2 C2_filter_correctness [where zmatch = sampleMatch and pats = "[''sub/*'']"
        and path = "''a.txt''"]
    by (simp add: sampleMatch_sub_a)
  show ?thesis using sampleMatch_sub_c sampleMatch_sub_a r1 r2 by blast
qed

text \<open>
  C8 as stated fails: a list that contains a malformed pattern behind a pattern that
  matches the path returns \<open>false\<close> without error, the malformed pattern is never compiled.
\<close>

theorem C8_malformed_behind_match_counterexample:
  "sampleMatch ''*[z-a]'' ''a.txt'' = Inl (PatternError ''invalid character class range: z-a'')
   \<and> isUploadableFile sampleMatch [''*'', ''*[z-a]''] ''a.txt'' = Inr False"
  by (simp add: sampleMatch_star_a sampleMatch_bad_range)

text \<open>
  C8 (amended). The patterns are tested in the order given, and the first pattern that
  either matches the path or fails to compile decides: a match returns \<open>false\<close>, a
  compilation failure returns that error. So the error of a malformed pattern is surfaced
  exactly when no earlier pattern matches the path (or fails itself), and the filter
  returns \<open>true\<close> only when every pattern compiled and none matched.
\<close>

theorem C8_first_hit_decides:
  "isUploadableFile zmatch pats path =
     (case firstHit zmatch pats path of
        None \<Rightarrow> Inr True
      | Some (Inl err) \<Rightarrow> Inl err
      | Some (Inr b) \<Rightarrow> Inr False)
   \<and> (zmatch pat path = Inl err \<and> (\<forall>q \<in> set qs. zmatch q path = Inr False)
        \<longrightarrow> isUploadableFile zmatch (qs @ pat # rest) path = Inl err)
   \<and> (zmatch pat path = Inr True \<and> (\<forall>q \<in> set qs. zmatch q path = Inr False)
        \<longrightarrow> isUploadableFile zmatch (qs @ pat # rest) path = Inr False)"
proof -
  have a: "isUploadableFile zmatch pats path =
     (case firstHit zmatch pats path of
        None \<Rightarrow> Inr True
      | Some (Inl err) \<Rightarrow> Inl err
      | Some (Inr b) \<Rightarrow> Inr False)"
    by (induction pats) (auto split: sum.splits)
  have b: "isUploadableFile zmatch (qs @ p # rest) path =
      (case zmatch p path of Inl e \<Rightarrow> Inl e
       | Inr m \<Rightarrow> if m then Inr False else isUploadableFile zmatch rest path)"
    if "\<forall>q \<in> set qs. zmatch q path = Inr False" for p
    using that by (induction qs) auto
  show ?thesis using a b by simp
qed

theorem C8_first_hit_decides_witness:
  "sampleMatch ''*[z-a]'' ''a.txt'' = Inl (PatternError ''invalid character class range: z-a'')
   \<and> sampleMatch ''sub/*'' ''a.txt'' = Inr False
   \<and> isUploadableFile sampleMatch ([''sub/*''] @ ''*[z-a]'' # [''*'']) ''a.txt''
       = Inl (PatternError ''invalid character class range: z-a'')
   \<and> sampleMatch ''*'' ''a.txt'' = Inr True
   \<and> isUploadableFile sampleMatch ([''sub/*''] @ ''*'' # [''*[z-a]'']) ''a.txt'' = Inr False"
proof -
  have q: "\<forall>q \<in> set [''sub/*'']. sampleMatch q ''a.txt'' = Inr False"
    by (simp add: sampleMatch_sub_a)
  have e: "sampleMatch ''*[z-a]'' ''a.txt'' = Inl (PatternError ''invalid character class range: z-a'')"
    by (rule sampleMatch_bad_range)
  have m: "sampleMatch ''*'' ''a.txt'' = Inr True"
    by (rule sampleMatch_star_a)
  have r1: "isUploadableFile sampleMatch ([''sub/*''] @ ''*[z-a]'' # [''*'']) ''a.txt''
       = Inl (PatternError ''invalid character class range: z-a'')"
    using C8_first_hit_decides [of sampleMatch "[]" "''a.txt''" "''*[z-a]''"
        "PatternError ''invalid character class range: z-a''" "[''sub/*'']" "[''*'']"] q e
    by blast
  have r2: "isUploadableFile sampleMatch ([''sub/*''] @ ''*'' # [''*[z-a]'']) ''a.txt'' = Inr False"
    using C8_first_hit_decides [of sampleMatch "[]" "''a.txt''" "''*''" _ "[''sub/*'']" "[''*[z-a]'']"] q m
    by blast
  show ?thesis using sampleMatch_sub_a e m r1 r2 by blast
qed

section \<open>Paths: properties\<close>

lemma splitOn_nonempty: "splitOn c xs \<noteq> []"
  by (induction xs) (auto split: list.splits)

lemma splitOn_append: "splitOn c (a @ c # b) = splitOn c a @ splitOn c b"
  by (induction a) (auto split: list.splits simp: splitOn_nonempty)

lemma splitOn_no_sep: "c \<notin> set e \<Longrightarrow> splitOn c e = [e]"
  by (induction e) auto

lemma joinWith_Cons_head: "joinWith sep ((a # w) # ws) = a # joinWith sep (w # ws)"
  by (cases ws) auto

lemma joinWith_splitOn: "joinWith [c] (splitOn c p) = p"
proof (induction p)
  case Nil
  show ?case by simp
next
  case (Cons x xs)
  obtain w ws where s: "splitOn c xs = w # ws"
    using splitOn_nonempty [of c xs] by (cases "splitOn c xs") auto
  show ?case
    using Cons.IH s by (simp add: joinWith_Cons_head del: joinWith.simps) simp
qed

lemma joinWith_append:
  "xs \<noteq> [] \<Longrightarrow> ys \<noteq> [] \<Longrightarrow> joinWith sep (xs @ ys) = joinWith sep xs @ sep @ joinWith sep ys"
  by (induction sep xs rule: joinWith.induct) (auto simp: neq_Nil_conv)

lemma cleanElems_plain:
  "list_all plainElem es \<Longrightarrow> cleanElems rooted out es = rev out @ es"
  by (induction es arbitrary: out) (auto simp: plainElem_def)

lemma Clean_rooted:
  "Clean (CHR ''/'' # p) = ''/'' @ joinWith ''/'' (cleanElems True [] (splitOn CHR ''/'' p))"
  by (simp add: Clean_def Let_def)

lemma destPath_empty_prefix:
  assumes "plainRel path"
  shows "destPath [] path = ''/'' @ path"
proof -
  have "joinWith ''/'' [''/'', [], path] = CHR ''/'' # (''/'' @ ''/'' @ path)" by simp
  then have "destPath [] path =
      ''/'' @ joinWith ''/'' (cleanElems True [] (splitOn CHR ''/'' (''/'' @ ''/'' @ path)))"
    by (simp add: destPath_def Clean_rooted del: joinWith.simps)
  also have "splitOn CHR ''/'' (''/'' @ ''/'' @ path) = [] # [] # splitOn CHR ''/'' path"
    by simp
  also have "cleanElems True [] ([] # [] # splitOn CHR ''/'' path) = splitOn CHR ''/'' path"
    using assms by (simp add: cleanElems_plain plainRel_def)
  finally show ?thesis using joinWith_splitOn [of "CHR ''/''" path] by simp
qed

lemma destPath_plain_prefix:
  assumes "plainRel pre" "plainRel path"
  shows "destPath pre path = ''/'' @ pre @ ''/'' @ path"
proof -
  let ?sp = "splitOn CHR ''/''"
  have "joinWith ''/'' [''/'', pre, path] = CHR ''/'' # (''/'' @ pre @ ''/'' @ path)" by simp
  then have "destPath pre path =
      ''/'' @ joinWith ''/'' (cleanElems True [] (?sp (''/'' @ pre @ ''/'' @ path)))"
    by (simp add: destPath_def Clean_rooted del: joinWith.simps)
  also have "?sp (''/'' @ pre @ ''/'' @ path) = [] # (?sp pre @ ?sp path)"
    using splitOn_append [of "CHR ''/''" pre path] by simp
  also have "cleanElems True [] ([] # (?sp pre @ ?sp path)) = ?sp pre @ ?sp path"
    using assms by (simp add: cleanElems_plain plainRel_def)
  also have "joinWith ''/'' (?sp pre @ ?sp path) = pre @ ''/'' @ path"
    using joinWith_append [of "?sp pre" "?sp path" "''/''"] joinWith_splitOn [of "CHR ''/''"]
    by (simp add: splitOn_nonempty)
  finally show ?thesis by simp
qed

lemma objKey_newObject: "objKey (newObject s e path) = destPath (Prefix (Config s)) path"
  by (simp add: newObject_def Let_def)

text \<open>
  C6 as stated fails for the empty prefix: \<^verbatim>\<open>filepath.Join\<close> cleans the path, so the key
  of \<open>a.txt\<close> is \<open>/a.txt\<close> and not \<open>//a.txt\<close>.
\<close>

theorem C6_empty_prefix_counterexample:
  "Prefix (Config bareUpload) = []
   \<and> objKey (newObject bareUpload calmEnv ''a.txt'') = ''/a.txt''
   \<and> ''/'' @ Prefix (Config bareUpload) @ ''/'' @ ''a.txt'' = ''//a.txt''"
  by (simp add: objKey_newObject destPath_def Clean_def bareUpload_def)

text \<open>
  C6 (amended). The destination key of the request is
  \<^verbatim>\<open>filepath.Join("/", prefix, path)\<close>, a cleaned path. For a prefix that is a plain
  relative path (not empty, no leading, trailing or doubled separator, no \<open>.\<close> or \<open>..\<close>) and
  a plain relative path of the file, it is \<open>"/" + prefix + "/" + path\<close>; for the
  empty prefix it is \<open>"/" + path\<close>. With the prefix \<open>site\<close> the files \<open>a.txt\<close> and \<open>b.png\<close> get
  the keys \<open>/site/a.txt\<close> and \<open>/site/b.png\<close>.
\<close>

theorem C6_destination_key:
  "objKey (newObject s e path) = Join [''/'', Prefix (Config s), path]
   \<and> (plainRel (Prefix (Config s)) \<and> plainRel path
        \<longrightarrow> objKey (newObject s e path) = ''/'' @ Prefix (Config s) @ ''/'' @ path)
   \<and> (Prefix (Config s) = [] \<and> plainRel path
        \<longrightarrow> objKey (newObject s e path) = ''/'' @ path)
   \<and> objKey (newObject siteUpload e ''a.txt'') = ''/site/a.txt''
   \<and> objKey (newObject siteUpload e ''b.png'') = ''/site/b.png''"
proof -
  have a: "objKey (newObject s e path) = Join [''/'', Prefix (Config s), path]"
    by (simp only: objKey_newObject destPath_def)
  have b: "objKey (newObject s e path) = ''/'' @ Prefix (Config s) @ ''/'' @ path"
    if "plainRel (Prefix (Config s))" "plainRel path"
    using that by (simp only: objKey_newObject destPath_plain_prefix)
  have c: "objKey (newObject s e path) = ''/'' @ path"
    if "Prefix (Config s) = []" "plainRel path"
    using that by (simp only: objKey_newObject destPath_empty_prefix)
  have d: "objKey (newObject siteUpload e ''a.txt'') = ''/site/a.txt''"
    by (simp add: objKey_newObject destPath_def Clean_def siteUpload_def)
  have f: "objKey (newObject siteUpload e ''b.png'') = ''/site/b.png''"
    by (simp add: objKey_newObject destPath_def Clean_def siteUpload_def)
  show ?thesis using a b c d f by blast
qed

theorem C6_destination_key_witness:
  "plainRel (Prefix (Config siteUpload)) \<and> plainRel ''sub/c.txt''
   \<and> objKey (newObject siteUpload calmEnv ''sub/c.txt'') = ''/site/sub/c.txt''
   \<and> Prefix (Config bareUpload) = []
   \<and> objKey (newObject bareUpload calmEnv ''sub/c.txt'') = ''/sub/c.txt''"
proof -
  have p1: "plainRel (Prefix (Config siteUpload))"
    by (simp add: plainRel_def plainElem_def siteUpload_def)
  have p2: "plainRel ''sub/c.txt''" by (simp add: plainRel_def plainElem_def)
  have p3: "Prefix (Config bareUpload) = []" by (simp add: bareUpload_def)
  have "plainRel (Prefix (Config siteUpload)) \<and> plainRel ''sub/c.txt''
      \<longrightarrow> objKey (newObject siteUpload calmEnv ''sub/c.txt'')
          = ''/'' @ Prefix (Config siteUpload) @ ''/'' @ ''sub/c.txt''"
    using C6_destination_key [of siteUpload calmEnv "''sub/c.txt''"] by blast
  then have k1: "objKey (newObject siteUpload calmEnv ''sub/c.txt'') = ''/site/sub/c.txt''"
    using p1 p2 by (simp add: siteUpload_def)
  have "Prefix (Config bareUpload) = [] \<and> plainRel ''sub/c.txt''
      \<longrightarrow> objKey (newObject bareUpload calmEnv ''sub/c.txt'') = ''/'' @ ''sub/c.txt''"
    using C6_destination_key [of bareUpload calmEnv "''sub/c.txt''"] by blast
  then have k2: "objKey (newObject bareUpload calmEnv ''sub/c.txt'') = ''/sub/c.txt''"
    using p2 p3 by simp
  show ?thesis using p1 p2 p3 k1 k2 by blast
qed

section \<open>File enumerator: properties\<close>

lemma slashes_Nil [simp]: "slashes [] = []"
  by (simp add: slashes_def)

lemma slashes_Cons [simp]: "slashes (c # cs) = CHR ''/'' # c @ slashes cs"
  by (simp add: slashes_def)

lemma slashes_append: "slashes (cs @ ds) = slashes cs @ slashes ds"
  by (simp add: slashes_def)

lemma joinWith_slashes: "joinWith ''/'' (c # cs) = c @ slashes cs"
  by (induction cs arbitrary: c) auto

lemma relName_Cons: "relName (c # cs) = c @ slashes cs"
  by (simp add: relName_def joinWith_slashes del: joinWith.simps)

lemma splitOn_plain_slashes:
  "CHR ''/'' \<notin> set c \<Longrightarrow> list_all plainElem cs \<Longrightarrow>
   splitOn CHR ''/'' (c @ slashes cs) = c # cs"
proof (induction cs arbitrary: c)
  case Nil
  then show ?case by (simp add: splitOn_no_sep)
next
  case (Cons d ds)
  have "splitOn CHR ''/'' (c @ CHR ''/'' # (d @ slashes ds))
      = splitOn CHR ''/'' c @ splitOn CHR ''/'' (d @ slashes ds)"
    by (rule splitOn_append)
  then show ?case using Cons by (simp add: splitOn_no_sep plainElem_def)
qed

lemma splitOn_rel_slashes:
  "list_all plainElem cs \<Longrightarrow>
   splitOn CHR ''/'' (r @ slashes cs) = splitOn CHR ''/'' r @ cs"
proof (cases cs)
  case Nil
  then show ?thesis by simp
next
  case (Cons d ds)
  assume p: "list_all plainElem cs"
  have "splitOn CHR ''/'' (r @ CHR ''/'' # (d @ slashes ds))
      = splitOn CHR ''/'' r @ splitOn CHR ''/'' (d @ slashes ds)"
    by (rule splitOn_append)
  then show ?thesis using Cons p splitOn_plain_slashes [of d ds] by (simp add: plainElem_def)
qed

lemma cleanAbs_form:
  assumes "cleanAbs src"
  obtains r where "src = CHR ''/'' # r" "plainRel r"
  using assms by (cases src) (auto simp: cleanAbs_def)

lemma Clean_abs_slashes:
  assumes "plainRel r" "list_all plainElem cs"
  shows "Clean (CHR ''/'' # r @ slashes cs) = CHR ''/'' # r @ slashes cs"
proof -
  let ?sp = "splitOn CHR ''/''"
  obtain c ds where sp: "?sp r = c # ds"
    using splitOn_nonempty [of "CHR ''/''" r] by (cases "?sp r") auto
  have pl: "list_all plainElem (?sp r @ cs)" using assms by (simp add: plainRel_def)
  have "Clean (CHR ''/'' # r @ slashes cs)
      = ''/'' @ joinWith ''/'' (cleanElems True [] (?sp r @ cs))"
    using assms(2) by (simp add: Clean_rooted splitOn_rel_slashes)
  also have "\<dots> = ''/'' @ joinWith ''/'' (?sp r @ cs)"
    using pl by (simp add: cleanElems_plain)
  also have "joinWith ''/'' (?sp r @ cs) = joinWith ''/'' (?sp r) @ slashes cs"
    using sp by (simp add: joinWith_slashes slashes_append del: joinWith.simps)
  finally show ?thesis using joinWith_splitOn [of "CHR ''/''" r] by simp
qed

lemma Join_abs_name:
  assumes "cleanAbs src" "list_all plainElem cs" "plainElem name"
  shows "Join [src @ slashes cs, name] = src @ slashes (cs @ [name])"
proof -
  obtain r where r: "src = CHR ''/'' # r" "plainRel r" using assms(1) by (rule cleanAbs_form)
  have "Join [src @ slashes cs, name] = Clean (CHR ''/'' # r @ slashes (cs @ [name]))"
    using r by (simp add: slashes_append)
  also have "\<dots> = CHR ''/'' # r @ slashes (cs @ [name])"
    using r assms by (intro Clean_abs_slashes) simp_all
  finally show ?thesis using r by simp
qed

lemma visit_root: "visit zmatch ignore src src node err files = (None, files)"
  by (simp add: visit_def TrimPrefix_def)

lemma visit_below:
  "visit zmatch [] src (src @ CHR ''/'' # c @ slashes cs) node err files =
     (case Stat node of
        Inl e \<Rightarrow> (Some e, files)
      | Inr d \<Rightarrow> if d then (None, files) else (None, files @ [c @ slashes cs]))"
  by (simp add: visit_def TrimPrefix_def)

lemma walk_plain:
  assumes src: "cleanAbs src"
  shows "plainTree n \<Longrightarrow> list_all plainElem cs \<Longrightarrow> cs \<noteq> [] \<Longrightarrow>
         walk (visit zmatch [] src) (src @ slashes cs) n files
           = (None, files @ map (\<lambda>l. relName (cs @ l)) (leaves n))"
    and "plainTree (Directory es) \<Longrightarrow> list_all plainElem cs \<Longrightarrow>
         walkNames (visit zmatch [] src) (src @ slashes cs) es files
           = (None, files @ map (\<lambda>l. relName (cs @ l)) (leavesL es))"
proof (induction n and es arbitrary: cs files and cs files rule: leaves_leavesL.induct)
  case (1 es)
  obtain c ds where cs: "cs = c # ds" using "1.prems"(3) by (cases cs) auto
  show ?case
    using "1.IH" [OF "1.prems"(1,2)]
    by (simp add: cs visit_below Stat_def)
next
  case 2
  obtain c ds where cs: "cs = c # ds" using "2.prems"(3) by (cases cs) auto
  show ?case by (simp add: cs visit_below Stat_def relName_Cons)
next
  case 3
  obtain c ds where cs: "cs = c # ds" using "3.prems"(3) by (cases cs) auto
  show ?case by (simp add: cs visit_below Stat_def relName_Cons)
next
  case 4
  then show ?case by simp
next
  case 5
  then show ?case by simp
next
  case 6
  show ?case by simp
next
  case (7 name child rest)
  have pn: "plainElem name" and pc: "plainTree child" and pr: "plainTree (Directory rest)"
    using "7.prems"(1) by auto
  have j: "Join [src @ slashes cs, name] = src @ slashes (cs @ [name])"
    using src "7.prems"(2) pn by (rule Join_abs_name)
  have ls: "\<exists>d. Lstat child = Inr d" using pc by (cases child) auto
  have w: "walk (visit zmatch [] src) (src @ slashes (cs @ [name])) child files
      = (None, files @ map (\<lambda>l. relName ((cs @ [name]) @ l)) (leaves child))"
    using "7.prems"(2) pn by (intro "7.IH"(1) pc) simp_all
  have r: "walkNames (visit zmatch [] src) (src @ slashes cs) rest fs
      = (None, fs @ map (\<lambda>l. relName (cs @ l)) (leavesL rest))" for fs
    by (intro "7.IH"(2) pr "7.prems"(2))
  show ?case using ls by (auto simp: j w r comp_def simp del: Join.simps)
qed

lemma sourceFiles_plain:
  assumes "cleanAbs src" "plainTree root"
  shows "sourceFiles zmatch [] src root =
           Inr (map relName (case root of Directory es \<Rightarrow> leavesL es | _ \<Rightarrow> []))"
proof (cases root)
  case (Directory es)
  have "walkNames (visit zmatch [] src) (src @ slashes []) es []
      = (None, [] @ map (\<lambda>l. relName ([] @ l)) (leavesL es))"
    using assms unfolding Directory by (intro walk_plain(2)) simp_all
  then show ?thesis
    by (simp add: sourceFiles_def Walk_def Directory visit_root)
qed (use assms in \<open>simp_all add: sourceFiles_def Walk_def visit_root\<close>)

lemma leaves_plain:
  "plainTree n \<Longrightarrow> l \<in> set (leaves n) \<Longrightarrow> list_all plainElem l"
  "plainTree (Directory es) \<Longrightarrow> l \<in> set (leavesL es) \<Longrightarrow> list_all plainElem l"
  by (induction n and es arbitrary: l and l rule: leaves_leavesL.induct) auto

lemma leavesL_head:
  "l \<in> set (leavesL es) \<Longrightarrow> \<exists>c cs. l = c # cs \<and> c \<in> fst ` set es"
  by (induction es) force+

lemma leaves_resolve:
  "plainTree n \<Longrightarrow>
     l \<in> set (leaves n) \<longleftrightarrow> (resolve n l = Some RegularFile \<or> resolve n l = Some OtherFile)"
  "plainTree (Directory es) \<Longrightarrow>
     l \<in> set (leavesL es) \<longleftrightarrow>
       (resolve (Directory es) l = Some RegularFile \<or> resolve (Directory es) l = Some OtherFile)"
proof (induction n and es arbitrary: l and l rule: leaves_leavesL.induct)
  case (1 es)
  then show ?case by simp
next
  case 2
  show ?case by (cases l) auto
next
  case 3
  show ?case by (cases l) auto
next
  case 4
  then show ?case by simp
next
  case 5
  then show ?case by simp
next
  case 6
  show ?case by (cases l) auto
next
  case (7 name child rest)
  have pc: "plainTree child" and pr: "plainTree (Directory rest)"
    and fresh: "name \<notin> fst ` set rest"
    using "7.prems" by auto
  show ?case
  proof (cases l)
    case Nil
    then show ?thesis using leavesL_head [of "[]" rest] by auto
  next
    case (Cons c cs)
    show ?thesis
    proof (cases "c = name")
      case True
      have "name # cs \<notin> set (leavesL rest)"
        using leavesL_head [of "name # cs" rest] fresh by auto
      then show ?thesis using Cons True "7.IH"(1) [OF pc, of cs] by auto
    next
      case False
      then show ?thesis using Cons "7.IH"(2) [OF pr, of l] by auto
    qed
  qed
qed

lemma leaves_distinct:
  "plainTree n \<Longrightarrow> distinct (leaves n)"
  "plainTree (Directory es) \<Longrightarrow> distinct (leavesL es)"
proof (induction n and es rule: leaves_leavesL.induct)
  case (7 name child rest)
  have pc: "plainTree child" and pr: "plainTree (Directory rest)"
    and fresh: "name \<notin> fst ` set rest"
    using "7.prems" by auto
  have d1: "distinct (map ((#) name) (leaves child))"
    using "7.IH"(1) [OF pc] by (simp add: distinct_map)
  have d2: "distinct (leavesL rest)" using "7.IH"(2) [OF pr] .
  have "set (map ((#) name) (leaves child)) \<inter> set (leavesL rest) = {}"
    using leavesL_head [of _ rest] fresh by fastforce
  then show ?case using d1 d2 by simp
qed simp_all

lemma splitOn_relName:
  "list_all plainElem (c # cs) \<Longrightarrow> splitOn CHR ''/'' (relName (c # cs)) = c # cs"
  using splitOn_plain_slashes [of c cs] by (simp add: relName_Cons plainElem_def)

lemma relName_inj:
  assumes "list_all plainElem cs" "list_all plainElem ds" "cs \<noteq> []" "ds \<noteq> []"
    "relName cs = relName ds"
  shows "cs = ds"
proof -
  obtain c cs' where c: "cs = c # cs'" using assms(3) by (cases cs) auto
  obtain d ds' where d: "ds = d # ds'" using assms(4) by (cases ds) auto
  have s1: "splitOn CHR ''/'' (relName cs) = cs"
    using assms(1) unfolding c by (rule splitOn_relName)
  have s2: "splitOn CHR ''/'' (relName ds) = ds"
    using assms(2) unfolding d by (rule splitOn_relName)
  show ?thesis using s1 s2 assms(5) by metis
qed

lemma resolve_regularTree:
  "regularTree n \<Longrightarrow> resolve n cs \<noteq> Some OtherFile"
proof (induction n cs rule: resolve.induct)
  case (2 es c cs)
  show ?case
  proof (cases "map_of es c")
    case None
    then show ?thesis by simp
  next
    case (Some child)
    then have "(c, child) \<in> set es" by (rule map_of_SomeD)
    then have "regularTree child" using "2.prems" by auto
    then show ?thesis using "2.IH" Some by simp
  qed
qed auto

lemma sourceFiles_root_shape:
  assumes "cleanAbs src" "plainTree root"
  shows "\<exists>ls. sourceFiles zmatch [] src root = Inr (map relName ls) \<and> distinct ls
           \<and> (\<forall>l \<in> set ls. l \<noteq> [] \<and> list_all plainElem l)
           \<and> set ls = {cs. cs \<noteq> [] \<and> (resolve root cs = Some RegularFile
                                         \<or> resolve root cs = Some OtherFile)}"
proof (cases root)
  case (Directory es)
  have p: "plainTree (Directory es)" using assms(2) Directory by simp
  have a: "sourceFiles zmatch [] src root = Inr (map relName (leavesL es))"
    using sourceFiles_plain [OF assms, of zmatch] Directory by simp
  have b: "distinct (leavesL es)" using p by (rule leaves_distinct(2))
  have c: "\<forall>l \<in> set (leavesL es). l \<noteq> [] \<and> list_all plainElem l"
    using leaves_plain(2) [OF p] leavesL_head [of _ es] by blast
  have d: "set (leavesL es) = {cs. cs \<noteq> [] \<and> (resolve root cs = Some RegularFile
                                         \<or> resolve root cs = Some OtherFile)}"
    using leaves_resolve(2) [OF p] c unfolding Directory by blast
  show ?thesis using a b c d by blast
next
  case RegularFile
  have "resolve RegularFile cs = None" if "cs \<noteq> []" for cs
    using that by (cases cs) auto
  then have "{cs. cs \<noteq> [] \<and> (resolve RegularFile cs = Some RegularFile
                                         \<or> resolve RegularFile cs = Some OtherFile)} = {}"
    by auto
  then show ?thesis
    using sourceFiles_plain [OF assms, of zmatch] RegularFile
    by (intro exI [of _ "[]"]) simp
next
  case OtherFile
  have "resolve OtherFile cs = None" if "cs \<noteq> []" for cs
    using that by (cases cs) auto
  then have "{cs. cs \<noteq> [] \<and> (resolve OtherFile cs = Some RegularFile
                                         \<or> resolve OtherFile cs = Some OtherFile)} = {}"
    by auto
  then show ?thesis
    using sourceFiles_plain [OF assms, of zmatch] OtherFile
    by (intro exI [of _ "[]"]) simp
qed (use assms in simp_all)

lemma sourceFiles_siteTree:
  "sourceFiles sampleMatch [] ''/home/u/site'' siteTree = Inr [''a.txt'', ''b.png'', ''sub/c.txt'']"
  by (simp add: sourceFiles_def Walk_def visit_def TrimPrefix_def Stat_def Clean_def siteTree_def)

lemma sourceFiles_siteTree_ignore:
  "sourceFiles sampleMatch [''sub/*''] ''/home/u/site'' siteTree = Inr [''a.txt'', ''b.png'']"
  by (simp add: sourceFiles_def Walk_def visit_def TrimPrefix_def Stat_def Clean_def siteTree_def
      sampleMatch_def)

text \<open>
  C5 (errors of the traversal): the property fails on the code. The callback never reads
  the error that \<^verbatim>\<open>filepath.Walk\<close> hands to it, so its result is the same with and
  without that error. A directory that cannot be listed is therefore passed over in
  silence, and the enumeration returns the files around it without error; a source
  directory that does not exist gives the empty list without error.
\<close>

theorem C5_walk_error_swallowed:
  "visit zmatch ignore source path node err files = visit zmatch ignore source path node None files
   \<and> readDirNames LockedDir = Inl (PathError ''permission denied'')
   \<and> sourceFiles sampleMatch [] ''/src'' lockedTree = Inr [''a.txt'', ''z.txt'']
   \<and> Lstat Missing = Inl (PathError ''no such file or directory'')
   \<and> sourceFiles sampleMatch [] ''/src'' Missing = Inr []"
  by (simp add: sourceFiles_def Walk_def visit_def TrimPrefix_def Stat_def Clean_def
      lockedTree_def)

text \<open>
  C9 as stated fails: the enumerator skips directories and nothing else, so an entry that
  is neither a directory nor a regular file is enumerated as well.
\<close>

theorem C9_other_file_counterexample:
  "resolve pipeTree [''pipe''] = Some OtherFile
   \<and> sourceFiles sampleMatch [] ''/src'' pipeTree = Inr [''a.txt'', ''pipe'']"
  by (simp add: sourceFiles_def Walk_def visit_def TrimPrefix_def Stat_def Clean_def
      pipeTree_def)

text \<open>
  C9 (amended). For a source path that is a clean absolute path other than the root of the
  file system, a tree without failing entries whose names are plain and differ within
  each directory, and no ignore pattern, the enumerator returns without error the
  relative paths of all entries below the root that are not directories (regular files
  and other non-directories), each exactly once; the root and all directories are left
  out. When the tree holds regular files and directories only, these are exactly the
  relative paths of the regular files.
\<close>

theorem C9_enumeration:
  assumes "cleanAbs source" and "plainTree root"
  shows "\<exists>files. sourceFiles zmatch [] source root = Inr files \<and> distinct files
     \<and> set files = {relName cs | cs. cs \<noteq> [] \<and> (resolve root cs = Some RegularFile
                                                  \<or> resolve root cs = Some OtherFile)}
     \<and> (regularTree root \<longrightarrow>
          set files = {relName cs | cs. cs \<noteq> [] \<and> resolve root cs = Some RegularFile})"
proof -
  obtain ls where ls: "sourceFiles zmatch [] source root = Inr (map relName ls)"
      "distinct ls" "\<forall>l \<in> set ls. l \<noteq> [] \<and> list_all plainElem l"
      "set ls = {cs. cs \<noteq> [] \<and> (resolve root cs = Some RegularFile
                                  \<or> resolve root cs = Some OtherFile)}"
    using sourceFiles_root_shape [OF assms, of zmatch] by blast
  have inj: "inj_on relName (set ls)"
    using ls(3) relName_inj by (intro inj_onI) blast
  have d: "distinct (map relName ls)" using ls(2) inj by (simp add: distinct_map)
  have s: "set (map relName ls) = {relName cs | cs. cs \<noteq> [] \<and>
      (resolve root cs = Some RegularFile \<or> resolve root cs = Some OtherFile)}"
    using ls(4) by auto
  have r: "set (map relName ls) = {relName cs | cs. cs \<noteq> [] \<and> resolve root cs = Some RegularFile}"
    if "regularTree root"
    using s resolve_regularTree [OF that] by auto
  show ?thesis using ls(1) d s r by blast
qed

theorem C9_enumeration_witness:
  "cleanAbs ''/home/u/site'' \<and> plainTree siteTree \<and> regularTree siteTree
   \<and> sourceFiles sampleMatch [] ''/home/u/site'' siteTree = Inr [''a.txt'', ''b.png'', ''sub/c.txt'']
   \<and> set [''a.txt'', ''b.png'', ''sub/c.txt'']
       = {relName cs | cs. cs \<noteq> [] \<and> resolve siteTree cs = Some RegularFile}"
proof -
  have a: "cleanAbs ''/home/u/site''"
    by (simp add: cleanAbs_def plainRel_def plainElem_def)
  have p: "plainTree siteTree" by (simp add: siteTree_def plainElem_def)
  have g: "regularTree siteTree" by (simp add: siteTree_def)
  obtain files where f: "sourceFiles sampleMatch [] ''/home/u/site'' siteTree = Inr files"
      "regularTree siteTree \<longrightarrow>
         set files = {relName cs | cs. cs \<noteq> [] \<and> resolve siteTree cs = Some RegularFile}"
    using C9_enumeration [OF a p, of sampleMatch] by blast
  have e: "files = [''a.txt'', ''b.png'', ''sub/c.txt'']"
    using f(1) sourceFiles_siteTree by simp
  show ?thesis using a p g f e by blast
qed

section \<open>Upload worker and orchestrator: properties\<close>

declare Join.simps [simp del]

lemma run_append: "run s e d c (xs @ ys) = run s e d (run s e d c xs) ys"
  by (induction xs arbitrary: c) auto

lemma run_snoc: "run s e d c (xs @ [i]) = step s e d (run s e d c xs) i"
  by (simp add: run_append)

lemma run_replicate_Suc:
  "run s e d c (replicate (Suc j) i) = step s e d (run s e d c (replicate j i)) i"
proof -
  have "replicate (Suc j) i = replicate j i @ [i]" by (simp add: replicate_append_same)
  then show ?thesis by (simp only: run_snoc)
qed

lemma concat_replicate_Suc:
  "concat (replicate (Suc j) xs) = concat (replicate j xs) @ xs"
proof -
  have "replicate (Suc j) xs = replicate j xs @ [xs]" by (simp add: replicate_append_same)
  then show ?thesis by (simp only: concat_append) simp
qed

lemma step_panicked: "panic c \<noteq> None \<Longrightarrow> step s e d c i = c"
  by (simp add: step_def)

lemma run_panicked: "panic c \<noteq> None \<Longrightarrow> run s e d c sched = c"
  by (induction sched) (auto simp: step_panicked)

lemma step_no_worker: "length (workers c) \<le> i \<Longrightarrow> step s e d c i = c"
  by (simp add: step_def)

lemma run_no_workers: "workers c = [] \<Longrightarrow> run s e d c sched = c"
  by (induction sched) (auto simp: step_no_worker)

lemma uploadFile_live_fail:
  "openErr e (Join [SourcePath s, path]) k = None \<Longrightarrow>
   sendErr e (newObject s e path) k = Some err \<Longrightarrow>
   uploadFile s e k path False = ((0, Some err), attemptEvents s e path)"
  by (simp add: uploadFile_def attemptEvents_def Let_def del: Join.simps)

lemma uploadFile_live_ok:
  "openErr e (Join [SourcePath s, path]) k = None \<Longrightarrow>
   sendErr e (newObject s e path) k = None \<Longrightarrow>
   uploadFile s e k path False = ((1, None), attemptEvents s e path)"
  by (simp add: uploadFile_def attemptEvents_def Let_def del: Join.simps)

lemma uploadFile_open_fail:
  "openErr e (Join [SourcePath s, path]) k = Some msg \<Longrightarrow>
   uploadFile s e k path d = ((0, Some (PathError msg)), [])"
  by (simp add: uploadFile_def Let_def del: Join.simps)

lemma uploadFile_dry_ok:
  "openErr e (Join [SourcePath s, path]) k = None \<Longrightarrow>
   uploadFile s e k path True =
     ((0, None), [Opened (Join [SourcePath s, path]),
                  Printed (progressLine True (objKey (newObject s e path)))])"
  by (simp add: uploadFile_def Let_def del: Join.simps)

lemma step_retry:
  assumes "panic c = None" "i < length (workers c)" "workers c ! i = AtRetry path r"
    "uploadFile s e (nat (30 - r)) path d = ((n, Some err), evs)" "isAwsError err" "1 < r"
  shows "step s e d c i =
     c \<lparr> workers := (workers c)[i := AtRetry path (r - 1)],
         trace := trace c @ evs @ backoffEvents path \<rparr>"
  using assms by (simp add: step_def backoffEvents_def)

lemma step_exhausted:
  assumes "panic c = None" "i < length (workers c)" "workers c ! i = AtRetry path r"
    "uploadFile s e (nat (30 - r)) path d = ((n, Some err), evs)" "isAwsError err" "r \<le> 1"
  shows "step s e d c i = c \<lparr> trace := trace c @ evs, panic := Some (PanicError err) \<rparr>"
  using assms by (simp add: step_def)

lemma step_unknown:
  assumes "panic c = None" "i < length (workers c)" "workers c ! i = AtRetry path r"
    "uploadFile s e (nat (30 - r)) path d = ((n, Some err), evs)" "\<not> isAwsError err"
  shows "step s e d c i =
     c \<lparr> trace := trace c @ evs,
         panic := Some (PanicString (''unknown error! '' @ errorText err)) \<rparr>"
  using assms by (simp add: step_def)

lemma step_success:
  assumes "panic c = None" "i < length (workers c)" "workers c ! i = AtRetry path r"
    "uploadFile s e (nat (30 - r)) path d = ((n, None), evs)"
  shows "step s e d c i =
     c \<lparr> workers := (workers c)[i := AtAdd n], trace := trace c @ evs \<rparr>"
  using assms by (simp add: step_def)

lemma step_add:
  assumes "panic c = None" "i < length (workers c)" "workers c ! i = AtAdd n"
  shows "step s e d c i =
     c \<lparr> num := num c + word_of_int n, workers := (workers c)[i := AtRange] \<rparr>"
  using assms by (simp add: step_def)

lemma retry_rounds:
  assumes c: "panic c = None" "i < length (workers c)" "workers c ! i = AtRetry path 30"
    and j: "j \<le> 29"
    and fail: "\<forall>k<j. openErr e (Join [SourcePath s, path]) k = None
                 \<and> (\<exists>m. sendErr e (newObject s e path) k = Some (AwsError m))"
  shows "run s e False c (replicate j i) =
     c \<lparr> workers := (workers c)[i := AtRetry path (30 - int j)],
         trace := trace c @ concat (replicate j (attemptEvents s e path @ backoffEvents path)) \<rparr>"
  using j fail
proof (induction j)
  case 0
  have "(workers c)[i := AtRetry path 30] = workers c"
    using c(3) by (metis list_update_id)
  then show ?case by simp
next
  case (Suc j)
  let ?c = "c \<lparr> workers := (workers c)[i := AtRetry path (30 - int j)],
         trace := trace c @ concat (replicate j (attemptEvents s e path @ backoffEvents path)) \<rparr>"
  have ih: "run s e False c (replicate j i) = ?c" using Suc by simp
  obtain m where m: "openErr e (Join [SourcePath s, path]) j = None"
      "sendErr e (newObject s e path) j = Some (AwsError m)"
    using Suc.prems(2) by auto
  have u: "uploadFile s e (nat (30 - (30 - int j))) path False
      = ((0, Some (AwsError m)), attemptEvents s e path)"
    using uploadFile_live_fail [OF m] by simp
  have st: "step s e False ?c i =
     ?c \<lparr> workers := (workers ?c)[i := AtRetry path ((30 - int j) - 1)],
          trace := trace ?c @ attemptEvents s e path @ backoffEvents path \<rparr>"
    using c(1,2) Suc.prems(1) by (intro step_retry [OF _ _ _ u]) simp_all
  have "run s e False c (replicate (Suc j) i) = step s e False ?c i"
    using ih by (simp only: run_replicate_Suc)
  also note st
  finally show ?case
    by (simp add: concat_replicate_Suc algebra_simps del: replicate.simps)
qed

lemma puts_append: "puts (xs @ ys) = puts xs + puts ys"
  by (simp add: puts_def)

lemma sleeps_append: "sleeps (xs @ ys) = sleeps xs + sleeps ys"
  by (simp add: sleeps_def)

lemma puts_rounds: "puts (concat (replicate j xs)) = j * puts xs"
  by (induction j) (auto simp: puts_append puts_def)

lemma sleeps_rounds: "sleeps (concat (replicate j xs)) = j * sleeps xs"
  by (induction j) (auto simp: sleeps_append sleeps_def)

lemma puts_attempt: "puts (attemptEvents s e path) = 1"
  by (simp add: puts_def attemptEvents_def)

lemma puts_backoff: "puts (backoffEvents path) = 0"
  by (simp add: puts_def backoffEvents_def)

lemma sleeps_attempt: "sleeps (attemptEvents s e path) = 0"
  by (simp add: sleeps_def attemptEvents_def)

lemma sleeps_backoff: "sleeps (backoffEvents path) = 1"
  by (simp add: sleeps_def backoffEvents_def)

lemma retry_exhausted:
  assumes c: "panic c = None" "i < length (workers c)" "workers c ! i = AtRetry path 30"
    and fail: "\<forall>k<30. openErr e (Join [SourcePath s, path]) k = None
                 \<and> (\<exists>m. sendErr e (newObject s e path) k = Some (AwsError m))"
  shows "\<exists>m. sendErr e (newObject s e path) 29 = Some (AwsError m)
     \<and> run s e False c (replicate 30 i) =
         c \<lparr> workers := (workers c)[i := AtRetry path 1],
             trace := trace c @ concat (replicate 29 (attemptEvents s e path @ backoffEvents path))
                        @ attemptEvents s e path,
             panic := Some (PanicError (AwsError m)) \<rparr>"
proof -
  let ?c = "c \<lparr> workers := (workers c)[i := AtRetry path (30 - int 29)],
         trace := trace c @ concat (replicate 29 (attemptEvents s e path @ backoffEvents path)) \<rparr>"
  have r: "run s e False c (replicate 29 i) = ?c"
    using fail by (intro retry_rounds c) auto
  obtain m where m: "openErr e (Join [SourcePath s, path]) 29 = None"
      "sendErr e (newObject s e path) 29 = Some (AwsError m)"
    using fail [rule_format, of 29] by auto
  have u: "uploadFile s e (nat (30 - (30 - int 29))) path False
      = ((0, Some (AwsError m)), attemptEvents s e path)"
    using uploadFile_live_fail [OF m] by simp
  have st: "step s e False ?c i =
     ?c \<lparr> trace := trace ?c @ attemptEvents s e path, panic := Some (PanicError (AwsError m)) \<rparr>"
    using c(1,2) by (intro step_exhausted [OF _ _ _ u]) simp_all
  have "run s e False c (replicate (Suc 29) i) = step s e False ?c i"
    using r by (simp only: run_replicate_Suc)
  then have "run s e False c (replicate 30 i) =
         c \<lparr> workers := (workers c)[i := AtRetry path 1],
             trace := trace c @ concat (replicate 29 (attemptEvents s e path @ backoffEvents path))
                        @ attemptEvents s e path,
             panic := Some (PanicError (AwsError m)) \<rparr>"
    using st by simp
  then show ?thesis using m(2) by blast
qed

lemma retry_succeeds:
  assumes c: "panic c = None" "i < length (workers c)" "workers c ! i = AtRetry path 30"
    and j: "j < 30"
    and fail: "\<forall>k<j. openErr e (Join [SourcePath s, path]) k = None
                 \<and> (\<exists>m. sendErr e (newObject s e path) k = Some (AwsError m))"
    and ok: "openErr e (Join [SourcePath s, path]) j = None"
            "sendErr e (newObject s e path) j = None"
  shows "run s e False c (replicate (Suc j) i) =
         c \<lparr> workers := (workers c)[i := AtAdd 1],
             trace := trace c @ concat (replicate j (attemptEvents s e path @ backoffEvents path))
                        @ attemptEvents s e path \<rparr>"
    and "run s e False c (replicate (Suc (Suc j)) i) =
         c \<lparr> num := num c + 1, workers := (workers c)[i := AtRange],
             trace := trace c @ concat (replicate j (attemptEvents s e path @ backoffEvents path))
                        @ attemptEvents s e path \<rparr>"
proof -
  let ?c = "c \<lparr> workers := (workers c)[i := AtRetry path (30 - int j)],
         trace := trace c @ concat (replicate j (attemptEvents s e path @ backoffEvents path)) \<rparr>"
  let ?d = "c \<lparr> workers := (workers c)[i := AtAdd 1],
             trace := trace c @ concat (replicate j (attemptEvents s e path @ backoffEvents path))
                        @ attemptEvents s e path \<rparr>"
  have r: "run s e False c (replicate j i) = ?c"
    using fail j by (intro retry_rounds c) auto
  have u: "uploadFile s e (nat (30 - (30 - int j))) path False
      = ((1, None), attemptEvents s e path)"
    using uploadFile_live_ok [OF ok] by simp
  have st: "step s e False ?c i =
     ?c \<lparr> workers := (workers ?c)[i := AtAdd 1], trace := trace ?c @ attemptEvents s e path \<rparr>"
    using c(1,2) by (intro step_success [OF _ _ _ u]) simp_all
  have "run s e False c (replicate (Suc j) i) = step s e False ?c i"
    using r by (simp only: run_replicate_Suc)
  then show d: "run s e False c (replicate (Suc j) i) = ?d"
    using st by simp
  have "step s e False ?d i =
     ?d \<lparr> num := num ?d + word_of_int 1, workers := (workers ?d)[i := AtRange] \<rparr>"
    using c(1,2) by (intro step_add) simp_all
  moreover have "run s e False c (replicate (Suc (Suc j)) i) = step s e False ?d i"
    using d by (simp only: run_replicate_Suc)
  ultimately show "run s e False c (replicate (Suc (Suc j)) i) =
         c \<lparr> num := num c + 1, workers := (workers c)[i := AtRange],
             trace := trace c @ concat (replicate j (attemptEvents s e path @ backoffEvents path))
                        @ attemptEvents s e path \<rparr>"
    by simp
qed

text \<open>
  C1 (retry bound). Take any pool without a panic in which worker \<open>i\<close> has just received
  a task, and let this worker move, in a live run. If every attempt finds the file and its
  request fails with an error of the SDK, the worker makes exactly 30 requests with
  exactly 29 backoffs of one second between them, on the same task, is still running
  after each of the first 29, and panics at the 30th: nothing in the pool moves after
  that. If instead the first \<open>j\<close> attempts fail so and attempt \<open>j + 1 \<le> 30\<close> succeeds, the
  worker has made \<open>j + 1\<close> requests and \<open>j\<close> backoffs, adds 1 to the counter with its next
  step and is back at the channel, with no further event for this task.
\<close>

theorem C1_retry_bound:
  assumes "panic c = None" and "i < length (workers c)" and "workers c ! i = AtRetry path 30"
  shows "((\<forall>k<30. openErr e (Join [SourcePath s, path]) k = None
                 \<and> (\<exists>m. sendErr e (newObject s e path) k = Some (AwsError m)))
          \<longrightarrow> (\<forall>j<30. panic (run s e False c (replicate j i)) = None
                        \<and> workers (run s e False c (replicate j i)) ! i = AtRetry path (30 - int j)
                        \<and> puts (trace (run s e False c (replicate j i))) = puts (trace c) + j
                        \<and> sleeps (trace (run s e False c (replicate j i))) = sleeps (trace c) + j)
              \<and> (\<exists>m. panic (run s e False c (replicate 30 i)) = Some (PanicError (AwsError m)))
              \<and> trace (run s e False c (replicate 30 i)) =
                  trace c @ concat (replicate 29 (attemptEvents s e path @ backoffEvents path))
                    @ attemptEvents s e path
              \<and> puts (trace (run s e False c (replicate 30 i))) = puts (trace c) + 30
              \<and> sleeps (trace (run s e False c (replicate 30 i))) = sleeps (trace c) + 29
              \<and> (\<forall>sched. run s e False c (replicate 30 i @ sched) = run s e False c (replicate 30 i)))
       \<and> (j < 30 \<and> (\<forall>k<j. openErr e (Join [SourcePath s, path]) k = None
                 \<and> (\<exists>m. sendErr e (newObject s e path) k = Some (AwsError m)))
             \<and> openErr e (Join [SourcePath s, path]) j = None
             \<and> sendErr e (newObject s e path) j = None
          \<longrightarrow> workers (run s e False c (replicate (Suc j) i)) ! i = AtAdd 1
              \<and> panic (run s e False c (replicate (Suc j) i)) = None
              \<and> puts (trace (run s e False c (replicate (Suc j) i))) = puts (trace c) + Suc j
              \<and> sleeps (trace (run s e False c (replicate (Suc j) i))) = sleeps (trace c) + j
              \<and> num (run s e False c (replicate (Suc (Suc j)) i)) = num c + 1
              \<and> workers (run s e False c (replicate (Suc (Suc j)) i)) ! i = AtRange
              \<and> trace (run s e False c (replicate (Suc (Suc j)) i))
                  = trace (run s e False c (replicate (Suc j) i)))"
proof (intro conjI impI)
  assume fail: "\<forall>k<30. openErr e (Join [SourcePath s, path]) k = None
                 \<and> (\<exists>m. sendErr e (newObject s e path) k = Some (AwsError m))"
  obtain m where ex: "run s e False c (replicate 30 i) =
         c \<lparr> workers := (workers c)[i := AtRetry path 1],
             trace := trace c @ concat (replicate 29 (attemptEvents s e path @ backoffEvents path))
                        @ attemptEvents s e path,
             panic := Some (PanicError (AwsError m)) \<rparr>"
    using retry_exhausted [OF assms fail] by blast
  show "\<forall>j<30. panic (run s e False c (replicate j i)) = None
                        \<and> workers (run s e False c (replicate j i)) ! i = AtRetry path (30 - int j)
                        \<and> puts (trace (run s e False c (replicate j i))) = puts (trace c) + j
                        \<and> sleeps (trace (run s e False c (replicate j i))) = sleeps (trace c) + j"
  proof (intro allI impI)
    fix j :: nat
    assume "j < 30"
    then have "run s e False c (replicate j i) =
     c \<lparr> workers := (workers c)[i := AtRetry path (30 - int j)],
         trace := trace c @ concat (replicate j (attemptEvents s e path @ backoffEvents path)) \<rparr>"
      using fail by (intro retry_rounds assms) auto
    then show "panic (run s e False c (replicate j i)) = None
                        \<and> workers (run s e False c (replicate j i)) ! i = AtRetry path (30 - int j)
                        \<and> puts (trace (run s e False c (replicate j i))) = puts (trace c) + j
                        \<and> sleeps (trace (run s e False c (replicate j i))) = sleeps (trace c) + j"
      using assms(1,2)
      by (simp add: puts_append puts_rounds puts_attempt puts_backoff
          sleeps_append sleeps_rounds sleeps_attempt sleeps_backoff)
  qed
  show "\<exists>m. panic (run s e False c (replicate 30 i)) = Some (PanicError (AwsError m))"
    using ex by simp
  show "trace (run s e False c (replicate 30 i)) =
                  trace c @ concat (replicate 29 (attemptEvents s e path @ backoffEvents path))
                    @ attemptEvents s e path"
    using ex by simp
  show "puts (trace (run s e False c (replicate 30 i))) = puts (trace c) + 30"
    using ex by (simp add: puts_append puts_rounds puts_attempt puts_backoff)
  show "sleeps (trace (run s e False c (replicate 30 i))) = sleeps (trace c) + 29"
    using ex by (simp add: sleeps_append sleeps_rounds sleeps_attempt sleeps_backoff)
  have "panic (run s e False c (replicate 30 i)) \<noteq> None" using ex by simp
  then show "\<forall>sched. run s e False c (replicate 30 i @ sched) = run s e False c (replicate 30 i)"
    by (simp add: run_append run_panicked)
next
  assume h: "j < 30 \<and> (\<forall>k<j. openErr e (Join [SourcePath s, path]) k = None
                 \<and> (\<exists>m. sendErr e (newObject s e path) k = Some (AwsError m)))
             \<and> openErr e (Join [SourcePath s, path]) j = None
             \<and> sendErr e (newObject s e path) j = None"
  have a: "run s e False c (replicate (Suc j) i) =
         c \<lparr> workers := (workers c)[i := AtAdd 1],
             trace := trace c @ concat (replicate j (attemptEvents s e path @ backoffEvents path))
                        @ attemptEvents s e path \<rparr>"
    using h by (intro retry_succeeds(1) assms) auto
  have b: "run s e False c (replicate (Suc (Suc j)) i) =
         c \<lparr> num := num c + 1, workers := (workers c)[i := AtRange],
             trace := trace c @ concat (replicate j (attemptEvents s e path @ backoffEvents path))
                        @ attemptEvents s e path \<rparr>"
    using h by (intro retry_succeeds(2) assms) auto
  show "workers (run s e False c (replicate (Suc j) i)) ! i = AtAdd 1"
    using assms(2) by (simp only: a) simp
  show "panic (run s e False c (replicate (Suc j) i)) = None"
    using assms(1) by (simp only: a) simp
  show "puts (trace (run s e False c (replicate (Suc j) i))) = puts (trace c) + Suc j"
    by (simp only: a) (simp add: puts_append puts_rounds puts_attempt puts_backoff)
  show "sleeps (trace (run s e False c (replicate (Suc j) i))) = sleeps (trace c) + j"
    by (simp only: a) (simp add: sleeps_append sleeps_rounds sleeps_attempt sleeps_backoff)
  show "num (run s e False c (replicate (Suc (Suc j)) i)) = num c + 1"
    by (simp only: b) simp
  show "workers (run s e False c (replicate (Suc (Suc j)) i)) ! i = AtRange"
    using assms(2) by (simp only: b) simp
  show "trace (run s e False c (replicate (Suc (Suc j)) i))
                  = trace (run s e False c (replicate (Suc j) i))"
    by (simp only: a b) simp
qed

lemma sum_list_map_update:
  fixes f :: "'a \<Rightarrow> nat"
  shows "i < length ws \<Longrightarrow>
    sum_list (map f (ws[i := w])) + f (ws ! i) = sum_list (map f ws) + f w"
proof (induction ws arbitrary: i)
  case Nil
  then show ?case by simp
next
  case (Cons a ws)
  then show ?case by (cases i) auto
qed

lemma uploadFile_first:
  assumes "firstTryOk s e dryrun files" "path \<in> set files"
  shows "\<exists>evs. uploadFile s e 0 path dryrun = ((int (gain dryrun), None), evs)"
proof (cases dryrun)
  case True
  have "openErr e (Join [SourcePath s, path]) 0 = None"
    using assms unfolding firstTryOk_def by blast
  then show ?thesis
    using uploadFile_dry_ok [of e s path 0] True by (simp add: gain_def)
next
  case False
  have "openErr e (Join [SourcePath s, path]) 0 = None"
    and "sendErr e (newObject s e path) 0 = None"
    using assms False unfolding firstTryOk_def by blast+
  then show ?thesis
    using uploadFile_live_ok [of e s path 0] False by (simp add: gain_def)
qed

lemma in_set_update: "x \<in> set (ws[i := w]) \<Longrightarrow> x = w \<or> x \<in> set ws"
  using set_update_subset_insert [of ws i w] by auto

lemma set_update_okWorker:
  "list_all P ws \<Longrightarrow> P w \<Longrightarrow> list_all P (ws[i := w])"
  unfolding list_all_iff using in_set_update [of _ ws i w] by blast

lemma steadyI:
  assumes "panic c = None" "set (fch c) \<subseteq> set files"
    "list_all (okWorker files dryrun) (workers c)"
    "num c + word_of_nat (gain dryrun * (length (fch c) + sum_list (map pending (workers c))))
          = word_of_nat (gain dryrun * length files)"
    "Finished \<in> set (workers c) \<Longrightarrow> fch c = []"
  shows "steady files dryrun c"
  using assms unfolding steady_def by blast

lemma steadyD:
  assumes "steady files dryrun c"
  shows "panic c = None" "set (fch c) \<subseteq> set files"
    "list_all (okWorker files dryrun) (workers c)"
    "num c + word_of_nat (gain dryrun * (length (fch c) + sum_list (map pending (workers c))))
          = word_of_nat (gain dryrun * length files)"
    "Finished \<in> set (workers c) \<Longrightarrow> fch c = []"
  using assms unfolding steady_def by blast+

lemma steady_step:
  assumes ok: "firstTryOk s e dryrun files" and st: "steady files dryrun c"
    and i: "i < length (workers c)" "workers c ! i \<noteq> Finished"
  shows "steady files dryrun (step s e dryrun c i) \<and> cost (step s e dryrun c i) + 1 = cost c"
proof (cases "workers c ! i")
  case AtRange
  show ?thesis
  proof (cases "fch c")
    case Nil
    let ?ws = "(workers c)[i := Finished]"
    have s: "step s e dryrun c i = c \<lparr> workers := ?ws \<rparr>"
      using steadyD(1) [OF st] i AtRange Nil by (simp add: step_def)
    have p: "sum_list (map pending ?ws) = sum_list (map pending (workers c))"
      using sum_list_map_update [of i "workers c" pending Finished] i AtRange by simp
    have q: "sum_list (map wcost ?ws) + 1 = sum_list (map wcost (workers c))"
      using sum_list_map_update [of i "workers c" wcost Finished] i AtRange by simp
    have okw: "list_all (okWorker files dryrun) ?ws"
      using steadyD(3) [OF st] by (intro set_update_okWorker) simp_all
    have "steady files dryrun (c \<lparr> workers := ?ws \<rparr>)"
      using steadyD [OF st] okw Nil by (intro steadyI) (simp_all add: p)
    moreover have "cost (c \<lparr> workers := ?ws \<rparr>) + 1 = cost c"
      using q by (simp add: cost_def)
    ultimately show ?thesis by (simp only: s) 
  next
    case (Cons path rest)
    let ?ws = "(workers c)[i := AtRetry path 30]"
    have s: "step s e dryrun c i = c \<lparr> fch := rest, workers := ?ws \<rparr>"
      using steadyD(1) [OF st] i AtRange Cons by (simp add: step_def)
    have p: "sum_list (map pending ?ws) = sum_list (map pending (workers c)) + 1"
      using sum_list_map_update [of i "workers c" pending "AtRetry path 30"] i AtRange by simp
    have q: "sum_list (map wcost ?ws) = sum_list (map wcost (workers c)) + 2"
      using sum_list_map_update [of i "workers c" wcost "AtRetry path 30"] i AtRange by simp
    have nf: "Finished \<notin> set (workers c)" using steadyD(5) [OF st] Cons by auto
    have nf': "Finished \<notin> set ?ws" using nf in_set_update [of Finished "workers c" i] by auto
    have mem: "path \<in> set files" using steadyD(2) [OF st] Cons by auto
    have okw: "list_all (okWorker files dryrun) ?ws"
      using steadyD(3) [OF st] mem by (intro set_update_okWorker) simp_all
    have len: "length (fch c) = Suc (length rest)" using Cons by simp
    have "steady files dryrun (c \<lparr> fch := rest, workers := ?ws \<rparr>)"
    proof (intro steadyI)
      show "panic (c \<lparr> fch := rest, workers := ?ws \<rparr>) = None"
        using steadyD(1) [OF st] by simp
      show "set (fch (c \<lparr> fch := rest, workers := ?ws \<rparr>)) \<subseteq> set files"
        using steadyD(2) [OF st] Cons by auto
      show "list_all (okWorker files dryrun) (workers (c \<lparr> fch := rest, workers := ?ws \<rparr>))"
        using okw by simp
      show "num (c \<lparr> fch := rest, workers := ?ws \<rparr>)
          + word_of_nat (gain dryrun * (length (fch (c \<lparr> fch := rest, workers := ?ws \<rparr>))
              + sum_list (map pending (workers (c \<lparr> fch := rest, workers := ?ws \<rparr>)))))
          = word_of_nat (gain dryrun * length files)"
        using steadyD(4) [OF st] by (simp add: p len)
      show "fch (c \<lparr> fch := rest, workers := ?ws \<rparr>) = []"
        if "Finished \<in> set (workers (c \<lparr> fch := rest, workers := ?ws \<rparr>))"
        using that nf' by simp
    qed
    moreover have "cost (c \<lparr> fch := rest, workers := ?ws \<rparr>) + 1 = cost c"
      using q len by (simp add: cost_def)
    ultimately show ?thesis by (simp only: s)
  qed
next
  case (AtRetry path r)
  let ?ws = "(workers c)[i := AtAdd (int (gain dryrun))]"
  have "okWorker files dryrun (workers c ! i)"
    using steadyD(3) [OF st] i by (simp add: list_all_length)
  then have m: "path \<in> set files" "r = 30" using AtRetry by simp_all
  obtain evs where u: "uploadFile s e (nat (30 - r)) path dryrun = ((int (gain dryrun), None), evs)"
    using uploadFile_first [OF ok m(1)] m(2) by auto
  have s: "step s e dryrun c i = c \<lparr> workers := ?ws, trace := trace c @ evs \<rparr>"
    using steadyD(1) [OF st] i(1) AtRetry u by (rule step_success)
  have p: "sum_list (map pending ?ws) = sum_list (map pending (workers c))"
    using sum_list_map_update [of i "workers c" pending "AtAdd (int (gain dryrun))"] i AtRetry by simp
  have q: "sum_list (map wcost ?ws) + 1 = sum_list (map wcost (workers c))"
    using sum_list_map_update [of i "workers c" wcost "AtAdd (int (gain dryrun))"] i AtRetry by simp
  have nf: "Finished \<in> set ?ws \<Longrightarrow> Finished \<in> set (workers c)"
    using in_set_update [of Finished "workers c" i] by auto
  have okw: "list_all (okWorker files dryrun) ?ws"
    using steadyD(3) [OF st] by (intro set_update_okWorker) simp_all
  have "steady files dryrun (c \<lparr> workers := ?ws, trace := trace c @ evs \<rparr>)"
    using steadyD [OF st] okw nf by (intro steadyI) (simp_all add: p)
  moreover have "cost (c \<lparr> workers := ?ws, trace := trace c @ evs \<rparr>) + 1 = cost c"
    using q by (simp add: cost_def)
  ultimately show ?thesis by (simp only: s)
next
  case (AtAdd n)
  let ?ws = "(workers c)[i := AtRange]"
  have "okWorker files dryrun (workers c ! i)"
    using steadyD(3) [OF st] i by (simp add: list_all_length)
  then have n: "n = int (gain dryrun)" using AtAdd by simp
  have s: "step s e dryrun c i = c \<lparr> num := num c + word_of_int n, workers := ?ws \<rparr>"
    using steadyD(1) [OF st] i(1) AtAdd by (rule step_add)
  have p: "sum_list (map pending ?ws) + 1 = sum_list (map pending (workers c))"
    using sum_list_map_update [of i "workers c" pending AtRange] i AtAdd by simp
  have q: "sum_list (map wcost ?ws) + 1 = sum_list (map wcost (workers c))"
    using sum_list_map_update [of i "workers c" wcost AtRange] i AtAdd by simp
  have nf: "Finished \<in> set ?ws \<Longrightarrow> Finished \<in> set (workers c)"
    using in_set_update [of Finished "workers c" i] by auto
  have okw: "list_all (okWorker files dryrun) ?ws"
    using steadyD(3) [OF st] by (intro set_update_okWorker) simp_all
  have g: "gain dryrun * (length (fch c) + sum_list (map pending (workers c)))
      = gain dryrun + gain dryrun * (length (fch c) + sum_list (map pending ?ws))"
    unfolding p [symmetric] by (simp add: algebra_simps)
  have w: "num c + word_of_int n
        + word_of_nat (gain dryrun * (length (fch c) + sum_list (map pending ?ws)))
          = word_of_nat (gain dryrun * length files)"
    using steadyD(4) [OF st] unfolding g n by (simp add: add.assoc)
  have "steady files dryrun (c \<lparr> num := num c + word_of_int n, workers := ?ws \<rparr>)"
    using steadyD(1,2,5) [OF st] okw nf w by (intro steadyI) simp_all
  moreover have "cost (c \<lparr> num := num c + word_of_int n, workers := ?ws \<rparr>) + 1 = cost c"
    using q by (simp add: cost_def)
  ultimately show ?thesis by (simp only: s)
next
  case Finished
  then show ?thesis using i by simp
qed

lemma length_workers_step: "length (workers (step s e d c i)) = length (workers c)"
  by (auto simp: step_def split: worker.splits list.splits prod.splits option.splits)

lemma length_workers_run: "length (workers (run s e d c sched)) = length (workers c)"
  by (induction sched arbitrary: c) (auto simp: length_workers_step)

lemma step_finished: "workers c ! i = Finished \<Longrightarrow> step s e d c i = c"
  by (simp add: step_def)

lemma step_other_worker:
  assumes "j \<noteq> i"
  shows "workers (step s e d c j) ! i = workers c ! i"
proof (cases "panic c \<noteq> None \<or> length (workers c) \<le> j")
  case True
  then have "step s e d c j = c" by (auto simp: step_def)
  then show ?thesis by simp
next
  case False
  then have "(\<exists>w. workers (step s e d c j) = (workers c)[j := w])
      \<or> workers (step s e d c j) = workers c"
    by (auto simp: step_def split: worker.splits list.splits prod.splits option.splits)
  then show ?thesis using assms by auto
qed

lemma steady_step_any:
  assumes "firstTryOk s e dryrun files" "steady files dryrun c"
  shows "steady files dryrun (step s e dryrun c i)"
proof (cases "i < length (workers c) \<and> workers c ! i \<noteq> Finished")
  case True
  then show ?thesis using steady_step [OF assms] by blast
next
  case False
  then have "step s e dryrun c i = c"
    using step_finished [of c i] step_no_worker [of c i] by fastforce
  then show ?thesis using assms(2) by simp
qed

lemma steady_run_any:
  "firstTryOk s e dryrun files \<Longrightarrow> steady files dryrun c \<Longrightarrow>
   steady files dryrun (run s e dryrun c sched)"
  by (induction sched arbitrary: c) (auto simp: steady_step_any)

lemma cost_run_live:
  "firstTryOk s e dryrun files \<Longrightarrow> steady files dryrun c \<Longrightarrow> live s e dryrun c sched \<Longrightarrow>
   cost (run s e dryrun c sched) + length sched = cost c"
proof (induction sched arbitrary: c)
  case Nil
  show ?case by simp
next
  case (Cons i sched)
  have i: "i < length (workers c)" "workers c ! i \<noteq> Finished"
    and l: "live s e dryrun (step s e dryrun c i) sched"
    using Cons.prems(3) by auto
  have st: "steady files dryrun (step s e dryrun c i)"
    and co: "cost (step s e dryrun c i) + 1 = cost c"
    using steady_step [OF Cons.prems(1,2) i] by auto
  have "cost (run s e dryrun (step s e dryrun c i) sched) + length sched
      = cost (step s e dryrun c i)"
    using Cons.IH [OF Cons.prems(1) st l] .
  then show ?case using co by simp
qed

lemma cost_zero_allFinished: "cost c = 0 \<Longrightarrow> allFinished c"
proof -
  assume "cost c = 0"
  then have "\<forall>w \<in> set (workers c). wcost w = 0" by (simp add: cost_def)
  moreover have "w = Finished" if "wcost w = 0" for w using that by (cases w) auto
  ultimately show ?thesis by (auto simp: allFinished_def list_all_iff)
qed

lemma allFinished_pending: "allFinished c \<Longrightarrow> sum_list (map pending (workers c)) = 0"
  by (auto simp: allFinished_def list_all_iff)

lemma steady_allFinished_num:
  assumes "steady files dryrun c" "allFinished c" "workers c \<noteq> []"
  shows "num c = word_of_nat (gain dryrun * length files)"
proof -
  obtain w where "w \<in> set (workers c)" using assms(3) by (cases "workers c") auto
  then have "Finished \<in> set (workers c)"
    using assms(2) by (auto simp: allFinished_def list_all_iff)
  then have "fch c = []" using assms(1) by (simp add: steady_def)
  then show ?thesis
    using assms(1) allFinished_pending [OF assms(2)] by (simp add: steady_def)
qed

lemma steady_progress:
  assumes "steady files dryrun c" "workers c \<noteq> []" "0 < cost c"
  shows "\<exists>i. i < length (workers c) \<and> workers c ! i \<noteq> Finished"
proof (rule ccontr)
  assume "\<not> ?thesis"
  then have all: "\<forall>w \<in> set (workers c). w = Finished" by (auto simp: in_set_conv_nth)
  obtain w where "w \<in> set (workers c)" using assms(2) by (cases "workers c") auto
  then have "Finished \<in> set (workers c)" using all by auto
  then have "fch c = []" using assms(1) by (simp add: steady_def)
  moreover have "sum_list (map wcost (workers c)) = 0" using all by auto
  ultimately have "cost c = 0" by (simp add: cost_def)
  then show False using assms(3) by simp
qed

lemma live_exists:
  "firstTryOk s e dryrun files \<Longrightarrow> steady files dryrun c \<Longrightarrow> workers c \<noteq> [] \<Longrightarrow>
   k \<le> cost c \<Longrightarrow> \<exists>sched. length sched = k \<and> live s e dryrun c sched"
proof (induction k arbitrary: c)
  case 0
  show ?case by (intro exI [of _ "[]"]) simp
next
  case (Suc k)
  obtain i where i: "i < length (workers c)" "workers c ! i \<noteq> Finished"
    using steady_progress [OF Suc.prems(2,3)] Suc.prems(4) by auto
  have st: "steady files dryrun (step s e dryrun c i)"
    and co: "cost (step s e dryrun c i) + 1 = cost c"
    using steady_step [OF Suc.prems(1,2) i] by auto
  have ne: "workers (step s e dryrun c i) \<noteq> []"
    using Suc.prems(3) length_workers_step [of s e dryrun c i] by (metis length_0_conv)
  obtain sched where sched: "length sched = k" "live s e dryrun (step s e dryrun c i) sched"
    using Suc.IH [OF Suc.prems(1) st ne] co Suc.prems(4) by auto
  have "panic c = None" using Suc.prems(2) by (simp add: steady_def)
  then have "live s e dryrun c (i # sched)" using i sched by simp
  then show ?case using sched(1) by (intro exI [of _ "i # sched"]) simp
qed

lemma steady_startPool: "steady files dryrun (startPool files parallel)"
  by (simp add: steady_def startPool_def list_all_iff sum_list_replicate)

lemma cost_startPool: "cost (startPool files parallel) = 3 * length files + nat parallel"
  by (simp add: cost_def startPool_def sum_list_replicate)

lemma run_live_finishes:
  assumes ok: "firstTryOk s e dryrun files" and p: "1 \<le> parallel"
    and l: "live s e dryrun (startPool files parallel) sched"
    and n: "length sched = 3 * length files + nat parallel"
  shows "finish (run s e dryrun (startPool files parallel) sched)
     = Returns (word_of_nat (gain dryrun * length files)) None"
proof -
  let ?c = "run s e dryrun (startPool files parallel) sched"
  have st: "steady files dryrun ?c" using ok steady_startPool by (rule steady_run_any)
  have "cost ?c + length sched = cost (startPool files parallel)"
    using ok steady_startPool l by (rule cost_run_live)
  then have "cost ?c = 0" using n by (simp add: cost_startPool)
  then have af: "allFinished ?c" by (rule cost_zero_allFinished)
  have "length (workers ?c) = nat parallel"
    by (simp add: length_workers_run startPool_def)
  then have ne: "workers ?c \<noteq> []" using p by auto
  have "num ?c = word_of_nat (gain dryrun * length files)"
    using st af ne by (rule steady_allFinished_num)
  moreover have "panic ?c = None" using st by (simp add: steady_def)
  ultimately show ?thesis using af by (simp add: finish_def)
qed

lemma run_returns_num:
  assumes ok: "firstTryOk s e dryrun files" and p: "1 \<le> parallel"
    and r: "finish (run s e dryrun (startPool files parallel) sched) = Returns n err"
  shows "n = word_of_nat (gain dryrun * length files) \<and> err = None"
proof -
  let ?c = "run s e dryrun (startPool files parallel) sched"
  have st: "steady files dryrun ?c" using ok steady_startPool by (rule steady_run_any)
  have pn: "panic ?c = None" using st by (simp add: steady_def)
  have af: "allFinished ?c" and nn: "n = num ?c" and e: "err = None"
    using r pn by (auto simp: finish_def split: if_splits)
  have "length (workers ?c) = nat parallel"
    by (simp add: length_workers_run startPool_def)
  then have ne: "workers ?c \<noteq> []" using p by auto
  show ?thesis using steady_allFinished_num [OF st af ne] nn e by simp
qed

lemma uploadFile_dry:
  "\<exists>err evs. uploadFile s e k path True = ((0, err), evs) \<and> puts evs = 0"
  by (cases "openErr e (Join [SourcePath s, path]) k")
     (simp_all add: uploadFile_def Let_def puts_def)

lemma dryClean_step:
  assumes "dryClean c"
  shows "dryClean (step s e True c i)"
proof (cases "panic c \<noteq> None \<or> length (workers c) \<le> i")
  case True
  then have "step s e True c i = c" by (auto simp: step_def)
  then show ?thesis using assms by simp
next
  case False
  then have pn: "panic c = None" and i: "i < length (workers c)" by auto
  have la: "list_all addsNothing (workers c)" using assms by (simp add: dryClean_def)
  show ?thesis
  proof (cases "workers c ! i")
    case AtRange
    then show ?thesis
      using assms pn i la
      by (cases "fch c") (auto simp: step_def dryClean_def intro: set_update_okWorker)
  next
    case (AtRetry path r)
    obtain err evs where u: "uploadFile s e (nat (30 - r)) path True = ((0, err), evs)"
        "puts evs = 0"
      using uploadFile_dry by blast
    show ?thesis
    proof (cases err)
      case None
      have "step s e True c i = c \<lparr> workers := (workers c)[i := AtAdd 0], trace := trace c @ evs \<rparr>"
        using pn i AtRetry u(1) None by (intro step_success) auto
      then show ?thesis
        using assms u(2) la by (auto simp: dryClean_def puts_append intro: set_update_okWorker)
    next
      case (Some x)
      have a: "step s e True c i =
          c \<lparr> workers := (workers c)[i := AtRetry path (r - 1)],
              trace := trace c @ evs @ backoffEvents path \<rparr>" if "isAwsError x" "1 < r"
        using pn i AtRetry u(1) Some that by (intro step_retry) auto
      have b: "step s e True c i = c \<lparr> trace := trace c @ evs, panic := Some (PanicError x) \<rparr>"
        if "isAwsError x" "r \<le> 1"
        using pn i AtRetry u(1) Some that by (intro step_exhausted) auto
      have d: "step s e True c i =
          c \<lparr> trace := trace c @ evs,
              panic := Some (PanicString (''unknown error! '' @ errorText x)) \<rparr>"
        if "\<not> isAwsError x"
        using pn i AtRetry u(1) Some that by (intro step_unknown) auto
      consider "isAwsError x \<and> 1 < r" | "isAwsError x \<and> r \<le> 1" | "\<not> isAwsError x"
        by fastforce
      then show ?thesis
      proof cases
        case 1
        then show ?thesis
          using a assms u(2) la
          by (auto simp: dryClean_def puts_append puts_backoff intro: set_update_okWorker)
      next
        case 2
        then show ?thesis using b assms u(2) by (auto simp: dryClean_def puts_append)
      next
        case 3
        then show ?thesis using d assms u(2) by (auto simp: dryClean_def puts_append)
      qed
    qed
  next
    case (AtAdd n)
    have "n = 0" using la i AtAdd by (auto simp: list_all_length)
    then have "step s e True c i = c \<lparr> num := num c + 0, workers := (workers c)[i := AtRange] \<rparr>"
      using step_add [OF pn i AtAdd, of s e True] by simp
    then show ?thesis
      using assms la by (auto simp: dryClean_def intro: set_update_okWorker)
  next
    case Finished
    then have "step s e True c i = c" by (rule step_finished)
    then show ?thesis using assms by simp
  qed
qed

lemma dryClean_run: "dryClean c \<Longrightarrow> dryClean (run s e True c sched)"
  by (induction sched arbitrary: c) (auto simp: dryClean_step)

lemma dryClean_startPool: "dryClean (startPool files parallel)"
  by (simp add: dryClean_def startPool_def puts_def list_all_iff)

lemma startPool_no_workers: "parallel \<le> 0 \<Longrightarrow> workers (startPool files parallel) = []"
  by (simp add: startPool_def)

lemma finish_no_workers:
  "parallel \<le> 0 \<Longrightarrow> finish (run s e d (startPool files parallel) sched) = Returns 0 None"
  by (simp add: run_no_workers startPool_no_workers)
     (simp add: finish_def startPool_def allFinished_def)

lemma gain_live: "gain False = 1" and gain_dry: "gain True = 0"
  by (simp_all add: gain_def)

text \<open>
  C3 (count conservation). Let the enumeration give \<open>N\<close> files whose uploads all succeed at
  the first attempt, in a live run with \<open>P \<ge> 1\<close> workers. Whatever the schedule, if
  \<^verbatim>\<open>Upload\<close> returns, it returns \<open>N\<close> and no error. It does return: every schedule of
  \<open>3 N + P\<close> steps in which each step is taken by a worker that can move ends with every
  worker past its loop, and such schedules exist. The bound \<open>P \<le> N\<close> of the specification
  is not needed.
\<close>

theorem C3_count_conservation:
  assumes "sourceFiles (glob e) (Ignore (Config s)) (SourcePath s) (sourceTree e) = Inr files"
    and "firstTryOk s e False files"
    and "1 \<le> parallel"
    and "length files < 2 ^ 64"
  shows "(Upload s e parallel False sched = Returns n err \<longrightarrow> unat n = length files \<and> err = None)
     \<and> (live s e False (startPool files parallel) sched
          \<and> length sched = 3 * length files + nat parallel
        \<longrightarrow> Upload s e parallel False sched = Returns (word_of_nat (length files)) None)
     \<and> (\<exists>sched'. live s e False (startPool files parallel) sched'
          \<and> length sched' = 3 * length files + nat parallel)"
proof (intro conjI impI)
  have up: "Upload s e parallel False sc = finish (run s e False (startPool files parallel) sc)"
    for sc
    using assms(1) by (simp add: Upload_def)
  have u: "unat (word_of_nat (length files) :: 64 word) = length files"
    using assms(4) by (simp add: unat_of_nat)
  show "unat n = length files" and "err = None"
    if "Upload s e parallel False sched = Returns n err"
    using run_returns_num [OF assms(2,3), of sched n err] that u
    by (simp_all add: up gain_live)
  show "Upload s e parallel False sched = Returns (word_of_nat (length files)) None"
    if "live s e False (startPool files parallel) sched
          \<and> length sched = 3 * length files + nat parallel"
    using run_live_finishes [OF assms(2,3), of sched] that by (simp add: up gain_live)
  show "\<exists>sched'. live s e False (startPool files parallel) sched'
          \<and> length sched' = 3 * length files + nat parallel"
  proof -
    have "workers (startPool files parallel) \<noteq> []"
      using assms(3) by (simp add: startPool_def)
    then show ?thesis
      using live_exists [OF assms(2) steady_startPool, of parallel "3 * length files + nat parallel"]
      by (auto simp: cost_startPool)
  qed
qed

text \<open>
  C4 (dry run). In a dry run, for every file list, every number of workers, every schedule
  and whatever the collaborators answer, no request is sent, and a count that is returned
  is 0. The run does return 0 when every file can be opened: with at least one worker
  after \<open>3 N + P\<close> steps of workers that can move, and with no worker at once.
\<close>

theorem C4_dry_run:
  "puts (UploadTrace s e parallel True sched) = 0
   \<and> (Upload s e parallel True sched = Returns n err \<longrightarrow> n = 0)
   \<and> (sourceFiles (glob e) (Ignore (Config s)) (SourcePath s) (sourceTree e) = Inr files
        \<and> firstTryOk s e True files \<and> 1 \<le> parallel
        \<longrightarrow> (live s e True (startPool files parallel) sched
               \<and> length sched = 3 * length files + nat parallel
             \<longrightarrow> Upload s e parallel True sched = Returns 0 None)
          \<and> (\<exists>sched'. live s e True (startPool files parallel) sched'
               \<and> length sched' = 3 * length files + nat parallel))
   \<and> (sourceFiles (glob e) (Ignore (Config s)) (SourcePath s) (sourceTree e) = Inr files
        \<and> parallel \<le> 0
        \<longrightarrow> Upload s e parallel True sched = Returns 0 None)"
proof (intro conjI impI)
  have dc: "dryClean (run s e True (startPool fs parallel) sched)" for fs
    using dryClean_startPool by (rule dryClean_run)
  show "puts (UploadTrace s e parallel True sched) = 0"
    using dc by (auto simp: UploadTrace_def dryClean_def puts_def split: sum.splits)
  show "n = 0" if "Upload s e parallel True sched = Returns n err"
    using that dc
    by (auto simp: Upload_def finish_def dryClean_def split: sum.splits option.splits if_splits)
next
  assume h: "sourceFiles (glob e) (Ignore (Config s)) (SourcePath s) (sourceTree e) = Inr files
        \<and> firstTryOk s e True files \<and> 1 \<le> parallel"
  have up: "Upload s e parallel True sc = finish (run s e True (startPool files parallel) sc)"
    for sc
    using h by (simp add: Upload_def)
  show "Upload s e parallel True sched = Returns 0 None"
    if "live s e True (startPool files parallel) sched
               \<and> length sched = 3 * length files + nat parallel"
    using run_live_finishes [of s e True files parallel sched] that h
    by (simp add: up gain_dry)
  have "workers (startPool files parallel) \<noteq> []"
    using h by (simp add: startPool_def)
  then show "\<exists>sched'. live s e True (startPool files parallel) sched'
               \<and> length sched' = 3 * length files + nat parallel"
    using live_exists [OF _ steady_startPool, of s e True files parallel
        "3 * length files + nat parallel"] h
    by (auto simp: cost_startPool)
next
  assume h: "sourceFiles (glob e) (Ignore (Config s)) (SourcePath s) (sourceTree e) = Inr files
        \<and> parallel \<le> 0"
  then show "Upload s e parallel True sched = Returns 0 None"
    by (simp add: Upload_def finish_no_workers)
qed

text \<open>
  C10 (no workers). When \<^verbatim>\<open>parallel\<close> is zero or negative and the enumeration
  succeeds, no worker is started, \<^verbatim>\<open>Upload\<close> returns the count 0 without error under
  every schedule, nothing is opened, printed or sent, and the enumerated files are still
  in the channel.
\<close>

theorem C10_no_workers:
  assumes "parallel \<le> 0"
    and "sourceFiles (glob e) (Ignore (Config s)) (SourcePath s) (sourceTree e) = Inr files"
  shows "workers (startPool files parallel) = []
     \<and> Upload s e parallel dryrun sched = Returns 0 None
     \<and> UploadTrace s e parallel dryrun sched = []
     \<and> fch (run s e dryrun (startPool files parallel) sched) = files"
proof -
  have w: "workers (startPool files parallel) = []"
    using assms(1) by (rule startPool_no_workers)
  have r: "run s e dryrun (startPool files parallel) sched = startPool files parallel"
    using w by (rule run_no_workers)
  show ?thesis
    using w assms(2) finish_no_workers [OF assms(1), of s e dryrun files sched]
    by (simp add: Upload_def UploadTrace_def r) (simp add: startPool_def)
qed

text \<open>
  C7 (error classes). A worker at \<^verbatim>\<open>RETRY\<close> whose call of \<^verbatim>\<open>uploadFile\<close> returns an error
  that is not an error of the SDK panics at once, without backoff, and nothing moves
  after that; an error of the SDK, while attempts are left, leads to the backoff and to
  \<^verbatim>\<open>RETRY\<close> on the same task. A failure to open the local file is of the first kind, and
  an error of the request is handed on by \<^verbatim>\<open>uploadFile\<close> as it is.
\<close>

theorem C7_error_classes:
  assumes "panic c = None" and "i < length (workers c)" and "workers c ! i = AtRetry path r"
  shows "(uploadFile s e (nat (30 - r)) path dryrun = ((n, Some err), evs) \<and> \<not> isAwsError err
          \<longrightarrow> panic (step s e dryrun c i) = Some (PanicString (''unknown error! '' @ errorText err))
              \<and> trace (step s e dryrun c i) = trace c @ evs
              \<and> run s e dryrun (step s e dryrun c i) sched = step s e dryrun c i)
       \<and> (uploadFile s e (nat (30 - r)) path dryrun = ((n, Some err), evs) \<and> isAwsError err \<and> 1 < r
          \<longrightarrow> panic (step s e dryrun c i) = None
              \<and> workers (step s e dryrun c i) ! i = AtRetry path (r - 1)
              \<and> trace (step s e dryrun c i) = trace c @ evs @ backoffEvents path)
       \<and> (openErr e (Join [SourcePath s, path]) (nat (30 - r)) = Some msg
          \<longrightarrow> panic (step s e dryrun c i) = Some (PanicString (''unknown error! '' @ msg))
              \<and> trace (step s e dryrun c i) = trace c
              \<and> run s e dryrun (step s e dryrun c i) sched = step s e dryrun c i)
       \<and> (openErr e (Join [SourcePath s, path]) (nat (30 - r)) = None
            \<and> sendErr e (newObject s e path) (nat (30 - r)) = Some err
          \<longrightarrow> uploadFile s e (nat (30 - r)) path False = ((0, Some err), attemptEvents s e path))"
proof (intro conjI impI)
  assume h: "uploadFile s e (nat (30 - r)) path dryrun = ((n, Some err), evs) \<and> \<not> isAwsError err"
  have st: "step s e dryrun c i =
     c \<lparr> trace := trace c @ evs,
         panic := Some (PanicString (''unknown error! '' @ errorText err)) \<rparr>"
    using assms h by (intro step_unknown) auto
  show "panic (step s e dryrun c i) = Some (PanicString (''unknown error! '' @ errorText err))"
    by (simp add: st)
  show "trace (step s e dryrun c i) = trace c @ evs" by (simp add: st)
  have "panic (step s e dryrun c i) \<noteq> None" by (simp add: st)
  then show "run s e dryrun (step s e dryrun c i) sched = step s e dryrun c i"
    by (rule run_panicked)
next
  assume h: "uploadFile s e (nat (30 - r)) path dryrun = ((n, Some err), evs)
      \<and> isAwsError err \<and> 1 < r"
  have st: "step s e dryrun c i =
     c \<lparr> workers := (workers c)[i := AtRetry path (r - 1)],
         trace := trace c @ evs @ backoffEvents path \<rparr>"
    using assms h by (intro step_retry) auto
  show "panic (step s e dryrun c i) = None" using assms(1) by (simp add: st)
  show "workers (step s e dryrun c i) ! i = AtRetry path (r - 1)"
    using assms(2) by (simp add: st)
  show "trace (step s e dryrun c i) = trace c @ evs @ backoffEvents path" by (simp add: st)
next
  assume h: "openErr e (Join [SourcePath s, path]) (nat (30 - r)) = Some msg"
  have u: "uploadFile s e (nat (30 - r)) path dryrun = ((0, Some (PathError msg)), [])"
    using h by (rule uploadFile_open_fail)
  have st: "step s e dryrun c i =
     c \<lparr> trace := trace c @ [],
         panic := Some (PanicString (''unknown error! '' @ errorText (PathError msg))) \<rparr>"
    using assms u by (intro step_unknown) auto
  show "panic (step s e dryrun c i) = Some (PanicString (''unknown error! '' @ msg))"
    by (simp add: st)
  show "trace (step s e dryrun c i) = trace c" by (simp add: st)
  have "panic (step s e dryrun c i) \<noteq> None" by (simp add: st)
  then show "run s e dryrun (step s e dryrun c i) sched = step s e dryrun c i"
    by (rule run_panicked)
next
  assume "openErr e (Join [SourcePath s, path]) (nat (30 - r)) = None
            \<and> sendErr e (newObject s e path) (nat (30 - r)) = Some err"
  then show "uploadFile s e (nat (30 - r)) path False = ((0, Some err), attemptEvents s e path)"
    by (intro uploadFile_live_fail) auto
qed

lemma sourceFiles_site:
  "sourceFiles (glob calmEnv) (Ignore (Config siteUpload)) (SourcePath siteUpload)
     (sourceTree calmEnv) = Inr [''a.txt'', ''b.png'']"
  using sourceFiles_siteTree_ignore by (simp add: calmEnv_def siteUpload_def)

lemma firstTryOk_site:
  "firstTryOk siteUpload calmEnv d [''a.txt'', ''b.png'']"
  by (simp add: firstTryOk_def calmEnv_def)

lemma live_site:
  "live siteUpload calmEnv False (startPool [''a.txt'', ''b.png''] 2) [0, 1, 0, 1, 0, 1, 0, 1]"
  by code_simp

lemma live_site_dry:
  "live siteUpload calmEnv True (startPool [''a.txt'', ''b.png''] 2) [0, 1, 0, 1, 0, 1, 0, 1]"
  by code_simp

theorem C3_count_conservation_witness:
  "sourceFiles (glob calmEnv) (Ignore (Config siteUpload)) (SourcePath siteUpload)
     (sourceTree calmEnv) = Inr [''a.txt'', ''b.png'']
   \<and> firstTryOk siteUpload calmEnv False [''a.txt'', ''b.png'']
   \<and> live siteUpload calmEnv False (startPool [''a.txt'', ''b.png''] 2) [0, 1, 0, 1, 0, 1, 0, 1]
   \<and> Upload siteUpload calmEnv 2 False [0, 1, 0, 1, 0, 1, 0, 1] = Returns 2 None
   \<and> Upload siteUpload calmEnv 1 False [0, 0, 0, 0, 0, 0, 0] \<noteq> Returns 1 None"
proof -
  have len: "length [''a.txt'', ''b.png''] < 2 ^ 64" by simp
  have p2: "(1::int) \<le> 2" and p1: "(1::int) \<le> 1" by simp_all
  have "live siteUpload calmEnv False (startPool [''a.txt'', ''b.png''] 2) [0, 1, 0, 1, 0, 1, 0, 1]
          \<and> length [0::nat, 1, 0, 1, 0, 1, 0, 1] = 3 * length [''a.txt'', ''b.png''] + nat 2
        \<longrightarrow> Upload siteUpload calmEnv 2 False [0, 1, 0, 1, 0, 1, 0, 1]
            = Returns (word_of_nat (length [''a.txt'', ''b.png''])) None"
    using C3_count_conservation [OF sourceFiles_site firstTryOk_site p2 len]
    by blast
  then have a: "Upload siteUpload calmEnv 2 False [0, 1, 0, 1, 0, 1, 0, 1] = Returns 2 None"
    using live_site by simp
  have "Upload siteUpload calmEnv 1 False [0, 0, 0, 0, 0, 0, 0] = Returns 1 None
      \<longrightarrow> unat (1 :: 64 word) = length [''a.txt'', ''b.png'']"
    using C3_count_conservation [OF sourceFiles_site firstTryOk_site p1 len]
    by blast
  then have b: "Upload siteUpload calmEnv 1 False [0, 0, 0, 0, 0, 0, 0] \<noteq> Returns 1 None"
    by auto
  show ?thesis using sourceFiles_site firstTryOk_site live_site a b by blast
qed

theorem C4_dry_run_witness:
  "sourceFiles (glob calmEnv) (Ignore (Config siteUpload)) (SourcePath siteUpload)
     (sourceTree calmEnv) = Inr [''a.txt'', ''b.png'']
   \<and> firstTryOk siteUpload calmEnv True [''a.txt'', ''b.png'']
   \<and> live siteUpload calmEnv True (startPool [''a.txt'', ''b.png''] 2) [0, 1, 0, 1, 0, 1, 0, 1]
   \<and> Upload siteUpload calmEnv 2 True [0, 1, 0, 1, 0, 1, 0, 1] = Returns 0 None
   \<and> puts (UploadTrace siteUpload calmEnv 2 True [0, 1, 0, 1, 0, 1, 0, 1]) = 0
   \<and> Upload siteUpload calmEnv 0 True [0, 1] = Returns 0 None"
proof -
  note t = C4_dry_run [of siteUpload calmEnv 2 "[0, 1, 0, 1, 0, 1, 0, 1]" _ _ "[''a.txt'', ''b.png'']"]
  have "live siteUpload calmEnv True (startPool [''a.txt'', ''b.png''] 2) [0, 1, 0, 1, 0, 1, 0, 1]
          \<and> length [0::nat, 1, 0, 1, 0, 1, 0, 1] = 3 * length [''a.txt'', ''b.png''] + nat 2
        \<longrightarrow> Upload siteUpload calmEnv 2 True [0, 1, 0, 1, 0, 1, 0, 1] = Returns 0 None"
    using t sourceFiles_site firstTryOk_site by simp
  then have a: "Upload siteUpload calmEnv 2 True [0, 1, 0, 1, 0, 1, 0, 1] = Returns 0 None"
    using live_site_dry by simp
  have b: "puts (UploadTrace siteUpload calmEnv 2 True [0, 1, 0, 1, 0, 1, 0, 1]) = 0"
    using t by blast
  have c: "Upload siteUpload calmEnv 0 True [0, 1] = Returns 0 None"
    using C4_dry_run [of siteUpload calmEnv 0 "[0, 1]" _ _ "[''a.txt'', ''b.png'']"]
      sourceFiles_site by simp
  show ?thesis using sourceFiles_site firstTryOk_site live_site_dry a b c by blast
qed

theorem C10_no_workers_witness:
  "sourceFiles (glob calmEnv) (Ignore (Config siteUpload)) (SourcePath siteUpload)
     (sourceTree calmEnv) = Inr [''a.txt'', ''b.png'']
   \<and> workers (startPool [''a.txt'', ''b.png''] 0) = []
   \<and> Upload siteUpload calmEnv 0 False [0, 1, 0] = Returns 0 None
   \<and> UploadTrace siteUpload calmEnv 0 False [0, 1, 0] = []
   \<and> fch (run siteUpload calmEnv False (startPool [''a.txt'', ''b.png''] 0) [0, 1, 0])
       = [''a.txt'', ''b.png'']
   \<and> Upload siteUpload calmEnv (- 3) False [0, 1, 0] = Returns 0 None"
proof -
  have z: "(0::int) \<le> 0" by simp
  have m: "(- 3::int) \<le> 0" by simp
  show ?thesis
    using C10_no_workers [OF z sourceFiles_site, of False "[0, 1, 0]"]
      C10_no_workers [OF m sourceFiles_site, of False "[0, 1, 0]"] sourceFiles_site
    by blast
qed

lemma readyPool_facts:
  "panic readyPool = None" "0 < length (workers readyPool)"
  "workers readyPool ! 0 = AtRetry ''a.txt'' 30" "trace readyPool = []" "num readyPool = 0"
  by (simp_all add: readyPool_def)

theorem C7_error_classes_witness:
  "panic readyPool = None \<and> workers readyPool ! 0 = AtRetry ''a.txt'' 30
   \<and> openErr sealedEnv (Join [SourcePath siteUpload, ''a.txt'']) (nat (30 - 30)) = Some ''permission denied''
   \<and> panic (step siteUpload sealedEnv False readyPool 0)
       = Some (PanicString (''unknown error! '' @ ''permission denied''))
   \<and> trace (step siteUpload sealedEnv False readyPool 0) = trace readyPool
   \<and> uploadFile siteUpload stormEnv (nat (30 - 30)) ''a.txt'' False
       = ((0, Some (AwsError ''RequestTimeout'')), attemptEvents siteUpload stormEnv ''a.txt'')
   \<and> isAwsError (AwsError ''RequestTimeout'')
   \<and> workers (step siteUpload stormEnv False readyPool 0) ! 0 = AtRetry ''a.txt'' (30 - 1)"
proof -
  have o: "openErr sealedEnv (Join [SourcePath siteUpload, ''a.txt'']) (nat (30 - 30))
      = Some ''permission denied''"
    by (simp add: sealedEnv_def)
  have o2: "openErr stormEnv (Join [SourcePath siteUpload, ''a.txt'']) (nat (30 - 30)) = None
      \<and> sendErr stormEnv (newObject siteUpload stormEnv ''a.txt'') (nat (30 - 30))
          = Some (AwsError ''RequestTimeout'')"
    by (simp add: stormEnv_def calmEnv_def)
  note t1 = C7_error_classes [OF readyPool_facts(1,2,3), of siteUpload sealedEnv False _ _ _ _
      "''permission denied''"]
  note t2 = C7_error_classes [OF readyPool_facts(1,2,3), of siteUpload stormEnv False 0
      "AwsError ''RequestTimeout''" "attemptEvents siteUpload stormEnv ''a.txt''"]
  have a: "panic (step siteUpload sealedEnv False readyPool 0)
       = Some (PanicString (''unknown error! '' @ ''permission denied''))
     \<and> trace (step siteUpload sealedEnv False readyPool 0) = trace readyPool"
    using t1 o by blast
  have u: "uploadFile siteUpload stormEnv (nat (30 - 30)) ''a.txt'' False
       = ((0, Some (AwsError ''RequestTimeout'')), attemptEvents siteUpload stormEnv ''a.txt'')"
    using t2 o2 by blast
  have "uploadFile siteUpload stormEnv (nat (30 - 30)) ''a.txt'' False
       = ((0, Some (AwsError ''RequestTimeout'')), attemptEvents siteUpload stormEnv ''a.txt'')
       \<and> isAwsError (AwsError ''RequestTimeout'') \<and> (1::int) < 30
       \<longrightarrow> workers (step siteUpload stormEnv False readyPool 0) ! 0 = AtRetry ''a.txt'' (30 - 1)"
    using t2 by blast
  then have b: "workers (step siteUpload stormEnv False readyPool 0) ! 0 = AtRetry ''a.txt'' (30 - 1)"
    using u by simp
  show ?thesis using readyPool_facts(1,3) o a u b by simp
qed

theorem C1_retry_bound_witness:
  "panic readyPool = None \<and> workers readyPool ! 0 = AtRetry ''a.txt'' 30
   \<and> (\<exists>m. panic (run siteUpload stormEnv False readyPool (replicate 30 0))
             = Some (PanicError (AwsError m)))
   \<and> puts (trace (run siteUpload stormEnv False readyPool (replicate 30 0))) = 30
   \<and> sleeps (trace (run siteUpload stormEnv False readyPool (replicate 30 0))) = 29
   \<and> panic (run siteUpload stormEnv False readyPool (replicate 29 0)) = None
   \<and> sendErr flakyEnv (newObject siteUpload flakyEnv ''a.txt'') 2 = None
   \<and> workers (run siteUpload flakyEnv False readyPool (replicate 3 0)) ! 0 = AtAdd 1
   \<and> puts (trace (run siteUpload flakyEnv False readyPool (replicate 3 0))) = 3
   \<and> sleeps (trace (run siteUpload flakyEnv False readyPool (replicate 3 0))) = 2
   \<and> num (run siteUpload flakyEnv False readyPool (replicate 4 0)) = 1
   \<and> workers (run siteUpload flakyEnv False readyPool (replicate 4 0)) ! 0 = AtRange"
proof -
  have storm: "\<forall>k<30. openErr stormEnv (Join [SourcePath siteUpload, ''a.txt'']) k = None
      \<and> (\<exists>m. sendErr stormEnv (newObject siteUpload stormEnv ''a.txt'') k = Some (AwsError m))"
    by (simp add: stormEnv_def calmEnv_def)
  have flaky: "(2::nat) < 30
      \<and> (\<forall>k<2. openErr flakyEnv (Join [SourcePath siteUpload, ''a.txt'']) k = None
           \<and> (\<exists>m. sendErr flakyEnv (newObject siteUpload flakyEnv ''a.txt'') k = Some (AwsError m)))
      \<and> openErr flakyEnv (Join [SourcePath siteUpload, ''a.txt'']) 2 = None
      \<and> sendErr flakyEnv (newObject siteUpload flakyEnv ''a.txt'') 2 = None"
    by (simp add: flakyEnv_def calmEnv_def)
  note t1 = C1_retry_bound [OF readyPool_facts(1,2,3), of stormEnv siteUpload 0]
  note t2 = C1_retry_bound [OF readyPool_facts(1,2,3), of flakyEnv siteUpload 2]
  have a: "(\<exists>m. panic (run siteUpload stormEnv False readyPool (replicate 30 0))
             = Some (PanicError (AwsError m)))
     \<and> puts (trace (run siteUpload stormEnv False readyPool (replicate 30 0)))
         = puts (trace readyPool) + 30
     \<and> sleeps (trace (run siteUpload stormEnv False readyPool (replicate 30 0)))
         = sleeps (trace readyPool) + 29
     \<and> (\<forall>j<30. panic (run siteUpload stormEnv False readyPool (replicate j 0)) = None)"
    using t1 storm by blast
  have b: "workers (run siteUpload flakyEnv False readyPool (replicate (Suc 2) 0)) ! 0 = AtAdd 1
     \<and> puts (trace (run siteUpload flakyEnv False readyPool (replicate (Suc 2) 0)))
         = puts (trace readyPool) + Suc 2
     \<and> sleeps (trace (run siteUpload flakyEnv False readyPool (replicate (Suc 2) 0)))
         = sleeps (trace readyPool) + 2
     \<and> num (run siteUpload flakyEnv False readyPool (replicate (Suc (Suc 2)) 0))
         = num readyPool + 1
     \<and> workers (run siteUpload flakyEnv False readyPool (replicate (Suc (Suc 2)) 0)) ! 0 = AtRange"
    using t2 flaky by blast
  have s3: "Suc 2 = 3" and s4: "Suc (Suc 2) = 4" by simp_all
  have z: "puts (trace readyPool) = 0" "sleeps (trace readyPool) = 0"
    by (simp_all add: readyPool_facts puts_def sleeps_def)
  have p29: "panic (run siteUpload stormEnv False readyPool (replicate 29 0)) = None"
    using a by simp
  show ?thesis
    using a b p29 flaky readyPool_facts(1,3,5) z unfolding s3 s4 by simp
qed

end
